theory Spec2Isabelle
  imports Complex_Main "HOL-Library.FSet" "HOL-Library.Product_Lexorder" "HOL-Library.Word"
begin

section \<open>Threads\<close>

text \<open>
  The model follows \<^verbatim>\<open>src/source/SignalGPBase.h\<close>. A \<^verbatim>\<open>size_t\<close> is a natural number
  (no arithmetic of the source can wrap, except the cast \<^verbatim>\<open>(size_t)-1\<close>, which is written
  out below). A \<^verbatim>\<open>double\<close> priority is a real number: the source only stores and compares
  priorities, it never computes with them, and the comparisons of doubles other than NaN
  are those of a linear order. The source as it stands has statements that do not compile;
  each is read as the nearest statement that does, and the reading is said where it is
  made.
\<close>

datatype ThreadState = RUNNING | DEAD | PENDING

record 'e Thread =
  exec_state :: 'e
  priority :: real
  run_state :: ThreadState

text \<open>The services of the derived hardware and of the execution state type that the base
  class calls: the default constructor and \<^verbatim>\<open>Clear\<close> of \<^verbatim>\<open>exec_state_t\<close>, and the pure virtual
  \<^verbatim>\<open>InitThread(thread_t &, size_t)\<close>, which updates the thread it is handed.\<close>

record 'e backend =
  exec_state_t :: 'e
  Clear :: "'e \<Rightarrow> 'e"
  InitThread :: "'e Thread \<Rightarrow> nat \<Rightarrow> 'e Thread"

text \<open>\<^verbatim>\<open>Thread(const exec_state_t & _exec_state=exec_state_t(), double _priority=1.0)\<close>, whose
  initialiser list sets the three members (the source lacks the comma after
  \<^verbatim>\<open>priority(_priority)\<close>).\<close>

definition Thread_ctor :: "'e \<Rightarrow> real \<Rightarrow> 'e Thread" where
  "Thread_ctor e p = \<lparr>exec_state = e, priority = p, run_state = DEAD\<rparr>"

definition Reset :: "'e backend \<Rightarrow> 'e Thread \<Rightarrow> 'e Thread" where
  "Reset B t = t\<lparr>exec_state := Clear B (exec_state t), run_state := DEAD, priority := 1\<rparr>"

definition SetDead :: "'e Thread \<Rightarrow> 'e Thread" where
  "SetDead t = t\<lparr>run_state := DEAD\<rparr>"

definition IsDead :: "'e Thread \<Rightarrow> bool" where
  "IsDead t = (run_state t = DEAD)"

definition SetPending :: "'e Thread \<Rightarrow> 'e Thread" where
  "SetPending t = t\<lparr>run_state := PENDING\<rparr>"

definition IsPending :: "'e Thread \<Rightarrow> bool" where
  "IsPending t = (run_state t = PENDING)"

definition SetRunning :: "'e Thread \<Rightarrow> 'e Thread" where
  "SetRunning t = t\<lparr>run_state := RUNNING\<rparr>"

definition IsRunning :: "'e Thread \<Rightarrow> bool" where
  "IsRunning t = (run_state t = RUNNING)"

definition GetPriority :: "'e Thread \<Rightarrow> real" where
  "GetPriority t = priority t"

definition SetPriority :: "real \<Rightarrow> 'e Thread \<Rightarrow> 'e Thread" where
  "SetPriority p t = t\<lparr>priority := p\<rparr>"

section \<open>The hardware state\<close>

datatype BaseEvent = BaseEvent (GetID: nat)

text \<open>The failures of the source as values. An \<^verbatim>\<open>emp_assert\<close> that does not hold ends the
  call; so does an index outside an \<^verbatim>\<open>emp::vector\<close>, whose \<^verbatim>\<open>operator[]\<close> asserts its
  bounds.\<close>

datatype error =
    ThreadIdOutOfRange      \<comment> \<open>\<^verbatim>\<open>emp_assert(thread_id < threads.size())\<close>, \<^verbatim>\<open>threads[i]\<close>\<close>
  | ThreadNotPending        \<comment> \<open>\<^verbatim>\<open>emp_assert(threads[thread_id].IsPending())\<close>\<close>
  | ResetWhileExecuting     \<comment> \<open>\<^verbatim>\<open>emp_assert(!is_executing, "Cannot reset hardware while executing.")\<close>\<close>
  | TooManyActiveThreads    \<comment> \<open>\<^verbatim>\<open>emp_assert(active_threads.size() <= max_active_threads)\<close>\<close>
  | EmptyEventQueue         \<comment> \<open>\<^verbatim>\<open>event_queue.pop_front()\<close> on an empty deque\<close>
  | Todo                    \<comment> \<open>\<^verbatim>\<open>emp_assert(false)\<close>\<close>

text \<open>The members of \<^verbatim>\<open>BaseSignalGP\<close>. The event library pointer and the print functions
  take no part in thread management and are left out. \<^verbatim>\<open>active_threads\<close> is a
  \<^verbatim>\<open>std::unordered_set\<close>, a finite set; \<^verbatim>\<open>unused_threads\<close> is a vector used as a stack whose
  top is its last element; \<^verbatim>\<open>pending_threads\<close> is a deque whose front is the head of the
  list.\<close>

record ('e, 'c) BaseSignalGP =
  event_queue :: "BaseEvent list"
  max_active_threads :: nat
  max_thread_space :: nat
  threads :: "'e Thread list"
  thread_exec_order :: "nat list"
  active_threads :: "nat fset"
  unused_threads :: "nat list"
  pending_threads :: "nat list"
  cur_thread_id :: nat
  is_executing :: bool
  custom_component :: 'c

text \<open>\<^verbatim>\<open>(size_t)-1\<close>, with a \<^verbatim>\<open>size_t\<close> of 64 bits.\<close>

definition size_t_minus_1 :: nat where
  "size_t_minus_1 = unat (- 1 :: 64 word)"

subsection \<open>ActivateThread, KillThread\<close>

definition ActivateThread :: "nat \<Rightarrow> ('e, 'c) BaseSignalGP \<Rightarrow> error + ('e, 'c) BaseSignalGP" where
  "ActivateThread thread_id s =
     (if \<not> thread_id < length (threads s) then Inl ThreadIdOutOfRange
      else Inr (s\<lparr>active_threads := finsert thread_id (active_threads s),
                  thread_exec_order := thread_exec_order s @ [thread_id],
                  threads := (threads s)[thread_id := SetRunning (threads s ! thread_id)]\<rparr>))"

definition KillThread :: "nat \<Rightarrow> ('e, 'c) BaseSignalGP \<Rightarrow> error + ('e, 'c) BaseSignalGP" where
  "KillThread thread_id s =
     (if \<not> thread_id < length (threads s) then Inl ThreadIdOutOfRange
      else Inr (s\<lparr>active_threads := active_threads s |-| {|thread_id|},
                  threads := (threads s)[thread_id := SetDead (threads s ! thread_id)]\<rparr>))"

subsection \<open>ActivatePendingThreads\<close>

text \<open>The first loop: pending threads are activated in order of arrival while there is
  room.\<close>

function fill_spare_capacity :: "('e, 'c) BaseSignalGP \<Rightarrow> error + ('e, 'c) BaseSignalGP" where
  "fill_spare_capacity s =
     (if pending_threads s \<noteq> [] \<and> fcard (active_threads s) < max_active_threads s then
        (let thread_id = hd (pending_threads s) in
         if \<not> thread_id < length (threads s) then Inl ThreadIdOutOfRange
         else if \<not> IsPending (threads s ! thread_id) then Inl ThreadNotPending
         else (case ActivateThread thread_id s of
                 Inl e \<Rightarrow> Inl e
               | Inr s' \<Rightarrow> fill_spare_capacity (s'\<lparr>pending_threads := tl (pending_threads s')\<rparr>)))
      else Inr s)"
  by pat_completeness auto
termination
  by (relation "measure (\<lambda>s. length (pending_threads s))")
     (auto simp: ActivateThread_def split: if_splits)

text \<open>The maximum priority among the pending threads. The source initialises
  \<^verbatim>\<open>max_pending_priority\<close> from \<^verbatim>\<open>pending_threads.front().GetPriority()\<close> and declares
  it \<^verbatim>\<open>const\<close>; the queue holds ids, so the initial value is the priority of the thread
  with the id at the front, and the assignment in the loop is taken as written.\<close>

fun max_pending_loop :: "'e Thread list \<Rightarrow> nat list \<Rightarrow> real \<Rightarrow> error + real" where
  "max_pending_loop ths [] m = Inr m"
| "max_pending_loop ths (thread_id # ids) m =
     (if \<not> thread_id < length ths then Inl ThreadIdOutOfRange
      else if \<not> IsPending (ths ! thread_id) then Inl ThreadNotPending
      else (let p = GetPriority (ths ! thread_id)
            in max_pending_loop ths ids (if p > m then p else m)))"

definition max_pending_priority :: "('e, 'c) BaseSignalGP \<Rightarrow> error + real" where
  "max_pending_priority s =
     (if \<not> hd (pending_threads s) < length (threads s) then Inl ThreadIdOutOfRange
      else max_pending_loop (threads s) (pending_threads s)
             (GetPriority (threads s ! hd (pending_threads s))))"

text \<open>The min-heap \<^verbatim>\<open>active_priorities\<close> of \<^verbatim>\<open>(priority, id)\<close> tuples: a
  \<^verbatim>\<open>std::priority_queue\<close> under \<^verbatim>\<open>std::greater\<close>, whose top is the least tuple in the
  lexicographic order. The ids come from a set, so the tuples are distinct, and the heap
  is the finite set of its tuples with \<open>fMin\<close> as its top.\<close>

definition active_priorities :: "('e, 'c) BaseSignalGP \<Rightarrow> real \<Rightarrow> error + (real \<times> nat) fset" where
  "active_priorities s max_pending =
     (if fBex (active_threads s) (\<lambda>active_id. \<not> active_id < length (threads s))
      then Inl ThreadIdOutOfRange
      else Inr ((\<lambda>active_id. (GetPriority (threads s ! active_id), active_id)) |`|
                 ffilter (\<lambda>active_id. GetPriority (threads s ! active_id) < max_pending)
                   (active_threads s)))"

text \<open>The second loop: the pending threads, in order of arrival, against the active
  threads of the heap, least priority first. \<^verbatim>\<open>active_priorities.top().get<1>()\<close> is read
  as \<^verbatim>\<open>std::get<1>\<close> of the top tuple, its id.\<close>

function evict_lower_priority ::
  "(real \<times> nat) fset \<Rightarrow> ('e, 'c) BaseSignalGP \<Rightarrow> error + ('e, 'c) BaseSignalGP" where
  "evict_lower_priority heap s =
     (if heap \<noteq> {||} \<and> pending_threads s \<noteq> [] then
        (let pending_id = hd (pending_threads s);
             active_id = snd (fMin heap) in
         if \<not> pending_id < length (threads s) \<or> \<not> active_id < length (threads s)
         then Inl ThreadIdOutOfRange
         else if GetPriority (threads s ! pending_id) > GetPriority (threads s ! active_id) then
           (case KillThread active_id s of
              Inl e \<Rightarrow> Inl e
            | Inr s1 \<Rightarrow>
                (case ActivateThread pending_id s1 of
                   Inl e \<Rightarrow> Inl e
                 | Inr s2 \<Rightarrow>
                     evict_lower_priority (heap |-| {|fMin heap|})
                       (s2\<lparr>pending_threads := tl (pending_threads s2)\<rparr>)))
         else
           evict_lower_priority heap
             (s\<lparr>pending_threads := tl (pending_threads s),
                threads := (threads s)[pending_id := SetDead (threads s ! pending_id)]\<rparr>))
      else Inr s)"
  by pat_completeness auto
termination
  by (relation "measure (\<lambda>(heap, s). length (pending_threads s))")
     (auto simp: ActivateThread_def KillThread_def split: if_splits)

text \<open>The third loop: the pending threads that are left are marked dead and dropped.\<close>

function reject_leftovers :: "('e, 'c) BaseSignalGP \<Rightarrow> error + ('e, 'c) BaseSignalGP" where
  "reject_leftovers s =
     (if pending_threads s \<noteq> [] then
        (let pending_id = hd (pending_threads s) in
         if \<not> pending_id < length (threads s) then Inl ThreadIdOutOfRange
         else reject_leftovers
                (s\<lparr>threads := (threads s)[pending_id := SetDead (threads s ! pending_id)],
                   pending_threads := tl (pending_threads s)\<rparr>))
      else Inr s)"
  by pat_completeness auto
termination
  by (relation "measure (\<lambda>s. length (pending_threads s))") auto

definition ActivatePendingThreads :: "('e, 'c) BaseSignalGP \<Rightarrow> error + ('e, 'c) BaseSignalGP" where
  "ActivatePendingThreads s =
     (if pending_threads s = [] then Inr s
      else (case fill_spare_capacity s of
              Inl e \<Rightarrow> Inl e
            | Inr s1 \<Rightarrow>
                if pending_threads s1 = [] then Inr s1
                else (case max_pending_priority s1 of
                        Inl e \<Rightarrow> Inl e
                      | Inr max_pending \<Rightarrow>
                          (case active_priorities s1 max_pending of
                             Inl e \<Rightarrow> Inl e
                           | Inr heap \<Rightarrow>
                               (case evict_lower_priority heap s1 of
                                  Inl e \<Rightarrow> Inl e
                                | Inr s2 \<Rightarrow> reject_leftovers s2)))))"

subsection \<open>Construction and reset\<close>

text \<open>The constructor. \<^verbatim>\<open>max_active_threads\<close> and \<^verbatim>\<open>max_thread_space\<close> have the default member
  initialisers 64 and 512; the custom component is default-constructed (\<open>c\<close>).\<close>

definition BaseSignalGP_ctor :: "'e backend \<Rightarrow> 'c \<Rightarrow> ('e, 'c) BaseSignalGP" where
  "BaseSignalGP_ctor B c =
     (let max_active = 64; max_space = 512;
          n = (if 2 * max_active < max_space then 2 * max_active else max_space)
      in \<lparr>event_queue = [],
          max_active_threads = max_active,
          max_thread_space = max_space,
          threads = replicate n (Thread_ctor (exec_state_t B) 1),
          thread_exec_order = [],
          active_threads = {||},
          unused_threads = map (\<lambda>i. (n - 1) - i) [0..<n],
          pending_threads = [],
          cur_thread_id = size_t_minus_1,
          is_executing = False,
          custom_component = c\<rparr>)"

definition BaseResetState :: "'e backend \<Rightarrow> ('e, 'c) BaseSignalGP \<Rightarrow> error + ('e, 'c) BaseSignalGP" where
  "BaseResetState B s =
     (if is_executing s then Inl ResetWhileExecuting
      else (let n = length (threads s)
            in Inr (s\<lparr>event_queue := [],
                      threads := map (Reset B) (threads s),
                      thread_exec_order := [],
                      active_threads := {||},
                      pending_threads := [],
                      unused_threads := map (\<lambda>i. (n - 1) - i) [0..<n],
                      cur_thread_id := size_t_minus_1,
                      is_executing := False\<rparr>)))"

subsection \<open>Accessors\<close>

definition GetCurThreadID :: "('e, 'c) BaseSignalGP \<Rightarrow> nat" where
  "GetCurThreadID s = cur_thread_id s"

definition GetCustomComponent :: "('e, 'c) BaseSignalGP \<Rightarrow> 'c" where
  "GetCustomComponent s = custom_component s"

definition SetCustomComponent :: "'c \<Rightarrow> ('e, 'c) BaseSignalGP \<Rightarrow> ('e, 'c) BaseSignalGP" where
  "SetCustomComponent val s = s\<lparr>custom_component := val\<rparr>"

definition QueueEvent :: "BaseEvent \<Rightarrow> ('e, 'c) BaseSignalGP \<Rightarrow> ('e, 'c) BaseSignalGP" where
  "QueueEvent event s = s\<lparr>event_queue := event_queue s @ [event]\<rparr>"

subsection \<open>SpawnThreadWithID\<close>

text \<open>The result is the \<^verbatim>\<open>std::optional<size_t>\<close> together with the state the call
  leaves.\<close>

definition SpawnThreadWithID ::
  "'e backend \<Rightarrow> nat \<Rightarrow> real \<Rightarrow> ('e, 'c) BaseSignalGP \<Rightarrow> error + (nat option \<times> ('e, 'c) BaseSignalGP)" where
  "SpawnThreadWithID B module_id prio s =
     (case (if unused_threads s \<noteq> [] then
              Some (last (unused_threads s), s\<lparr>unused_threads := butlast (unused_threads s)\<rparr>)
            else if length (threads s) < max_thread_space s then
              Some (length (threads s), s\<lparr>threads := threads s @ [Thread_ctor (exec_state_t B) 1]\<rparr>)
            else None) of
        None \<Rightarrow> Inr (None, s)
      | Some (thread_id, s1) \<Rightarrow>
          if \<not> thread_id < length (threads s1) then Inl ThreadIdOutOfRange
          else (let thread = InitThread B (SetPriority prio (Reset B (threads s1 ! thread_id))) module_id
                in Inr (Some thread_id,
                        s1\<lparr>threads := (threads s1)[thread_id := SetPending thread],
                           pending_threads := pending_threads s1 @ [thread_id]\<rparr>)))"

subsection \<open>SingleProcess\<close>

text \<open>The event loop. \<open>HandleEvent\<close> stands for the event library's handler run on this
  hardware; it may queue further events, so the loop need not end, and \<open>None\<close> is the
  call that does not return.\<close>

partial_function (option) handle_events ::
  "(BaseEvent \<Rightarrow> ('e, 'c) BaseSignalGP \<Rightarrow> error + ('e, 'c) BaseSignalGP) \<Rightarrow>
   ('e, 'c) BaseSignalGP \<Rightarrow> (error + ('e, 'c) BaseSignalGP) option" where
  "handle_events HandleEvent s =
     (if event_queue s \<noteq> [] then
        (case HandleEvent (hd (event_queue s)) s of
           Inl e \<Rightarrow> Some (Inl e)
         | Inr s1 \<Rightarrow>
             if event_queue s1 = [] then Some (Inl EmptyEventQueue)
             else handle_events HandleEvent (s1\<lparr>event_queue := tl (event_queue s1)\<rparr>))
      else Some (Inr s))"

text \<open>\<^verbatim>\<open>SingleProcess\<close> up to \<^verbatim>\<open>is_executing = true\<close>: the events, the admission of the
  pending threads, the assertion on the number of active threads.\<close>

definition SingleProcess_begin ::
  "(BaseEvent \<Rightarrow> ('e, 'c) BaseSignalGP \<Rightarrow> error + ('e, 'c) BaseSignalGP) \<Rightarrow>
   ('e, 'c) BaseSignalGP \<Rightarrow> (error + ('e, 'c) BaseSignalGP) option" where
  "SingleProcess_begin HandleEvent s =
     (case handle_events HandleEvent s of
        None \<Rightarrow> None
      | Some (Inl e) \<Rightarrow> Some (Inl e)
      | Some (Inr s1) \<Rightarrow>
          (case ActivatePendingThreads s1 of
             Inl e \<Rightarrow> Some (Inl e)
           | Inr s2 \<Rightarrow>
               if \<not> fcard (active_threads s2) \<le> max_active_threads s2
               then Some (Inl TooManyActiveThreads)
               else Some (Inr (s2\<lparr>is_executing := True\<rparr>))))"

text \<open>The rest of \<^verbatim>\<open>SingleProcess\<close> is unwritten in the source: a loop with an empty body
  (\<^verbatim>\<open>while (active_thread_id < thread_cnt) { }\<close>, where \<^verbatim>\<open>thread_cnt\<close> is read as the
  \<^verbatim>\<open>active_thread_cnt\<close> declared above it), then \<^verbatim>\<open>emp_assert(false)\<close>. The loop never
  ends when there is an active thread; otherwise the assertion fails.\<close>

definition SingleProcess ::
  "(BaseEvent \<Rightarrow> ('e, 'c) BaseSignalGP \<Rightarrow> error + ('e, 'c) BaseSignalGP) \<Rightarrow>
   ('e, 'c) BaseSignalGP \<Rightarrow> (error + ('e, 'c) BaseSignalGP) option" where
  "SingleProcess HandleEvent s =
     (case SingleProcess_begin HandleEvent s of
        None \<Rightarrow> None
      | Some (Inl e) \<Rightarrow> Some (Inl e)
      | Some (Inr s3) \<Rightarrow>
          (let active_thread_id = (0::nat);
               active_thread_cnt = fcard (active_threads s3)
           in if active_thread_id < active_thread_cnt then None else Some (Inl Todo)))"

section \<open>Invariants and reachable states\<close>

text \<open>The relation between the run state of a thread and the three views of the pool:
  a thread id is running iff it is in the active set and pending iff it is in the pending
  queue, a dead id is in the unused stack or in the execution order, the three views are
  pairwise disjoint, and the active set is within \<^verbatim>\<open>max_active_threads\<close>.\<close>

definition thread_index_inv :: "('e, 'c) BaseSignalGP \<Rightarrow> bool" where
  "thread_index_inv s \<longleftrightarrow>
     (\<forall>i < length (threads s).
        (run_state (threads s ! i) = RUNNING \<longleftrightarrow> i |\<in>| active_threads s) \<and>
        (run_state (threads s ! i) = PENDING \<longleftrightarrow> i \<in> set (pending_threads s)) \<and>
        (run_state (threads s ! i) = DEAD \<longrightarrow>
           i \<in> set (unused_threads s) \<or> i \<in> set (thread_exec_order s))) \<and>
     fset (active_threads s) \<inter> set (pending_threads s) = {} \<and>
     fset (active_threads s) \<inter> set (unused_threads s) = {} \<and>
     set (pending_threads s) \<inter> set (unused_threads s) = {} \<and>
     fcard (active_threads s) \<le> max_active_threads s"

text \<open>The same without the clause on dead ids: what holds between the admission of the
  pending threads and the end of a step.\<close>

definition admitted_inv :: "('e, 'c) BaseSignalGP \<Rightarrow> bool" where
  "admitted_inv s \<longleftrightarrow>
     (\<forall>i < length (threads s).
        (run_state (threads s ! i) = RUNNING \<longleftrightarrow> i |\<in>| active_threads s) \<and>
        (run_state (threads s ! i) = PENDING \<longleftrightarrow> i \<in> set (pending_threads s))) \<and>
     fset (active_threads s) \<inter> set (pending_threads s) = {} \<and>
     fset (active_threads s) \<inter> set (unused_threads s) = {} \<and>
     set (pending_threads s) \<inter> set (unused_threads s) = {} \<and>
     fcard (active_threads s) \<le> max_active_threads s"

text \<open>Every id held by a view is an index of the pool, and the two sequences hold no id
  twice.\<close>

definition ids_wf :: "('e, 'c) BaseSignalGP \<Rightarrow> bool" where
  "ids_wf s \<longleftrightarrow>
     fBall (active_threads s) (\<lambda>i. i < length (threads s)) \<and>
     (\<forall>i \<in> set (pending_threads s). i < length (threads s)) \<and>
     (\<forall>i \<in> set (unused_threads s). i < length (threads s)) \<and>
     distinct (pending_threads s) \<and>
     distinct (unused_threads s)"

text \<open>What an admission round leaves alone: the priority and the execution state of every
  thread, and every member other than the thread states, the active set, the pending
  queue and the execution order.\<close>

definition same_payload :: "('e, 'c) BaseSignalGP \<Rightarrow> ('e, 'c) BaseSignalGP \<Rightarrow> bool" where
  "same_payload s s' \<longleftrightarrow>
     map priority (threads s') = map priority (threads s) \<and>
     map exec_state (threads s') = map exec_state (threads s) \<and>
     unused_threads s' = unused_threads s \<and>
     event_queue s' = event_queue s \<and>
     max_active_threads s' = max_active_threads s \<and>
     max_thread_space s' = max_thread_space s \<and>
     cur_thread_id s' = cur_thread_id s \<and>
     is_executing s' = is_executing s \<and>
     custom_component s' = custom_component s"

text \<open>One public operation that returns. \<^verbatim>\<open>SingleProcess\<close> is among them, although in this
  source it never returns a state.\<close>

inductive public_op ::
  "'e backend \<Rightarrow> (BaseEvent \<Rightarrow> ('e, 'c) BaseSignalGP \<Rightarrow> error + ('e, 'c) BaseSignalGP) \<Rightarrow>
   ('e, 'c) BaseSignalGP \<Rightarrow> ('e, 'c) BaseSignalGP \<Rightarrow> bool"
  for B :: "'e backend"
  and HandleEvent :: "BaseEvent \<Rightarrow> ('e, 'c) BaseSignalGP \<Rightarrow> error + ('e, 'c) BaseSignalGP" where
  op_reset: "BaseResetState B s = Inr s' \<Longrightarrow> public_op B HandleEvent s s'"
| op_spawn: "SpawnThreadWithID B module_id prio s = Inr (r, s') \<Longrightarrow> public_op B HandleEvent s s'"
| op_queue: "public_op B HandleEvent s (QueueEvent event s)"
| op_custom: "public_op B HandleEvent s (SetCustomComponent val s)"
| op_process: "SingleProcess HandleEvent s = Some (Inr s') \<Longrightarrow> public_op B HandleEvent s s'"

text \<open>The states the written code passes through: from the constructor, by public
  operations (the event handlers act through them), and by the two steps of
  \<^verbatim>\<open>SingleProcess\<close> that are written, the admission of the pending threads and
  \<^verbatim>\<open>is_executing = true\<close>.\<close>

inductive reachable ::
  "'e backend \<Rightarrow> (BaseEvent \<Rightarrow> ('e, 'c) BaseSignalGP \<Rightarrow> error + ('e, 'c) BaseSignalGP) \<Rightarrow>
   ('e, 'c) BaseSignalGP \<Rightarrow> bool"
  for B :: "'e backend"
  and HandleEvent :: "BaseEvent \<Rightarrow> ('e, 'c) BaseSignalGP \<Rightarrow> error + ('e, 'c) BaseSignalGP" where
  r_ctor: "reachable B HandleEvent (BaseSignalGP_ctor B c)"
| r_op: "reachable B HandleEvent s \<Longrightarrow> public_op B HandleEvent s s' \<Longrightarrow> reachable B HandleEvent s'"
| r_admit: "reachable B HandleEvent s \<Longrightarrow> ActivatePendingThreads s = Inr s' \<Longrightarrow>
            reachable B HandleEvent s'"
| r_execute: "reachable B HandleEvent s \<Longrightarrow> reachable B HandleEvent (s\<lparr>is_executing := True\<rparr>)"

section \<open>Example states\<close>

text \<open>A backend over natural numbers: clearing gives 0, \<^verbatim>\<open>InitThread\<close> stores the module
  id.\<close>

definition B0 :: "nat backend" where
  "B0 = \<lparr>exec_state_t = 0, Clear = (\<lambda>_. 0), InitThread = (\<lambda>t module_id. t\<lparr>exec_state := Suc module_id\<rparr>)\<rparr>"

definition thr :: "real \<Rightarrow> ThreadState \<Rightarrow> nat Thread" where
  "thr p st = \<lparr>exec_state = 7, priority = p, run_state = st\<rparr>"

definition hw :: "nat \<Rightarrow> nat Thread list \<Rightarrow> nat list \<Rightarrow> nat list \<Rightarrow> nat list \<Rightarrow> (nat, unit) BaseSignalGP" where
  "hw max_active ths act pend unused =
     \<lparr>event_queue = [], max_active_threads = max_active, max_thread_space = 4,
      threads = ths, thread_exec_order = act, active_threads = fset_of_list act,
      unused_threads = unused, pending_threads = pend,
      cur_thread_id = size_t_minus_1, is_executing = False, custom_component = ()\<rparr>"

text \<open>One running thread of priority 2 and one pending thread of the same priority, with
  room for one active thread.\<close>

definition tie_state :: "(nat, unit) BaseSignalGP" where
  "tie_state = hw 1 [thr 2 RUNNING, thr 2 PENDING] [0] [1] []"

text \<open>Running threads of priorities 1 and 3, a pending thread of priority 2, room for two.\<close>

definition victim_state :: "(nat, unit) BaseSignalGP" where
  "victim_state = hw 2 [thr 1 RUNNING, thr 3 RUNNING, thr 2 PENDING] [0, 1] [2] []"

text \<open>A running thread of priority 5; pending threads of priorities 1 and 3, room for
  two.\<close>

definition refill_state :: "(nat, unit) BaseSignalGP" where
  "refill_state = hw 2 [thr 5 RUNNING, thr 1 PENDING, thr 3 PENDING] [0] [1, 2] []"

text \<open>Two pending threads and room for four.\<close>

definition spare_state :: "(nat, unit) BaseSignalGP" where
  "spare_state = hw 4 [thr 1 RUNNING, thr 1 PENDING, thr 6 PENDING, thr 1 DEAD] [0] [1, 2] [3]"

text \<open>A backend whose execution state is a stack of module ids, written as the digits of
  a number: clearing empties it, \<^verbatim>\<open>InitThread\<close> pushes the module id on what it is handed, so
  that the state a thread had before it was reset would show.\<close>

definition B1 :: "nat backend" where
  "B1 = \<lparr>exec_state_t = 4, Clear = (\<lambda>_. 0),
         InitThread = (\<lambda>t module_id. t\<lparr>exec_state := 10 * exec_state t + module_id\<rparr>)\<rparr>"

text \<open>No unused thread and a pool that has reached \<^verbatim>\<open>max_thread_space\<close>.\<close>

definition full_state :: "(nat, unit) BaseSignalGP" where
  "full_state = hw 2 [thr 1 RUNNING, thr 1 RUNNING, thr 1 PENDING, thr 1 PENDING] [0, 1] [2, 3] []"

text \<open>An event library whose handlers do nothing.\<close>

definition ignore_events :: "BaseEvent \<Rightarrow> (nat, unit) BaseSignalGP \<Rightarrow> error + (nat, unit) BaseSignalGP" where
  "ignore_events event s = Inr s"

text \<open>An event library whose handler spawns a thread for the module the event names.\<close>

definition spawn_on_event :: "BaseEvent \<Rightarrow> (nat, unit) BaseSignalGP \<Rightarrow> error + (nat, unit) BaseSignalGP" where
  "spawn_on_event event s =
     (case SpawnThreadWithID B1 (GetID event) 1 s of
        Inl e \<Rightarrow> Inl e
      | Inr (r, s') \<Rightarrow> Inr s')"

text \<open>A hardware that is executing, with one event queued.\<close>

definition reentered_state :: "(nat, unit) BaseSignalGP" where
  "reentered_state = spare_state\<lparr>event_queue := [BaseEvent 5], is_executing := True\<rparr>"

section \<open>Properties\<close>

declare fill_spare_capacity.simps [simp del]
declare evict_lower_priority.simps [simp del]
declare reject_leftovers.simps [simp del]

subsection \<open>The loops of ActivatePendingThreads, one iteration at a time\<close>

lemma fill_spare_capacity_stop:
  "pending_threads s = [] \<or> \<not> fcard (active_threads s) < max_active_threads s \<Longrightarrow>
   fill_spare_capacity s = Inr s"
  by (subst fill_spare_capacity.simps) auto

lemma fill_spare_capacity_step:
  assumes "pending_threads s = p # ps" "fcard (active_threads s) < max_active_threads s"
    and "p < length (threads s)" "IsPending (threads s ! p)"
  shows "fill_spare_capacity s =
         fill_spare_capacity
           (s\<lparr>active_threads := finsert p (active_threads s),
              thread_exec_order := thread_exec_order s @ [p],
              threads := (threads s)[p := SetRunning (threads s ! p)],
              pending_threads := ps\<rparr>)"
  using assms by (subst fill_spare_capacity.simps) (simp add: ActivateThread_def)

lemma fill_spare_capacity_fail:
  assumes "pending_threads s = p # ps" "fcard (active_threads s) < max_active_threads s"
    and "\<not> (p < length (threads s) \<and> IsPending (threads s ! p))"
  shows "\<exists>e. fill_spare_capacity s = Inl e"
  using assms by (subst fill_spare_capacity.simps) (auto simp add: ActivateThread_def)

lemma fill_spare_capacity_rule:
  assumes run: "fill_spare_capacity s = Inr s'" and init: "P s"
    and step: "\<And>s p ps. P s \<Longrightarrow> pending_threads s = p # ps \<Longrightarrow>
                 fcard (active_threads s) < max_active_threads s \<Longrightarrow>
                 p < length (threads s) \<Longrightarrow> IsPending (threads s ! p) \<Longrightarrow>
                 P (s\<lparr>active_threads := finsert p (active_threads s),
                      thread_exec_order := thread_exec_order s @ [p],
                      threads := (threads s)[p := SetRunning (threads s ! p)],
                      pending_threads := ps\<rparr>)"
  shows "P s' \<and> (pending_threads s' = [] \<or> \<not> fcard (active_threads s') < max_active_threads s')"
  using run init
proof (induction "length (pending_threads s)" arbitrary: s)
  case 0
  then show ?case by (simp add: fill_spare_capacity_stop)
next
  case (Suc n)
  then obtain p ps where q: "pending_threads s = p # ps" and n: "n = length ps"
    by (cases "pending_threads s") auto
  show ?case
  proof (cases "fcard (active_threads s) < max_active_threads s")
    case False
    with Suc.prems show ?thesis by (simp add: fill_spare_capacity_stop)
  next
    case True
    have ok: "p < length (threads s) \<and> IsPending (threads s ! p)"
      using fill_spare_capacity_fail [OF q True] Suc.prems(1) by fastforce
    let ?t = "s\<lparr>active_threads := finsert p (active_threads s),
                 thread_exec_order := thread_exec_order s @ [p],
                 threads := (threads s)[p := SetRunning (threads s ! p)],
                 pending_threads := ps\<rparr>"
    have "fill_spare_capacity ?t = Inr s'"
      using fill_spare_capacity_step [OF q True] ok Suc.prems(1) by simp
    moreover have "P ?t" using step [OF Suc.prems(2) q True] ok by simp
    moreover have "n = length (pending_threads ?t)" using n by simp
    ultimately show ?thesis by (rule Suc.hyps(1) [rotated])
  qed
qed

lemma fill_spare_capacity_total:
  assumes init: "P s"
    and step: "\<And>s p ps. P s \<Longrightarrow> pending_threads s = p # ps \<Longrightarrow>
                 fcard (active_threads s) < max_active_threads s \<Longrightarrow>
                 p < length (threads s) \<and> IsPending (threads s ! p) \<and>
                 P (s\<lparr>active_threads := finsert p (active_threads s),
                      thread_exec_order := thread_exec_order s @ [p],
                      threads := (threads s)[p := SetRunning (threads s ! p)],
                      pending_threads := ps\<rparr>)"
  shows "\<exists>s'. fill_spare_capacity s = Inr s'"
  using init
proof (induction "length (pending_threads s)" arbitrary: s)
  case 0
  then show ?case by (simp add: fill_spare_capacity_stop)
next
  case (Suc n)
  then obtain p ps where q: "pending_threads s = p # ps" and n: "n = length ps"
    by (cases "pending_threads s") auto
  show ?case
  proof (cases "fcard (active_threads s) < max_active_threads s")
    case False
    then show ?thesis by (simp add: fill_spare_capacity_stop)
  next
    case True
    let ?t = "s\<lparr>active_threads := finsert p (active_threads s),
                 thread_exec_order := thread_exec_order s @ [p],
                 threads := (threads s)[p := SetRunning (threads s ! p)],
                 pending_threads := ps\<rparr>"
    from step [OF Suc.prems q True]
    have ok: "p < length (threads s)" "IsPending (threads s ! p)" and P: "P ?t" by simp_all
    have "n = length (pending_threads ?t)" using n by simp
    from Suc.hyps(1) [OF this P] show ?thesis
      using fill_spare_capacity_step [OF q True ok] by simp
  qed
qed

lemma evict_lower_priority_stop:
  "heap = {||} \<or> pending_threads s = [] \<Longrightarrow> evict_lower_priority heap s = Inr s"
  by (subst evict_lower_priority.simps) auto

lemma evict_lower_priority_evict:
  assumes "heap \<noteq> {||}" "pending_threads s = p # ps" "snd (fMin heap) = a"
    and "p < length (threads s)" "a < length (threads s)"
    and "GetPriority (threads s ! p) > GetPriority (threads s ! a)"
  shows "evict_lower_priority heap s =
         evict_lower_priority (heap |-| {|fMin heap|})
           (s\<lparr>active_threads := finsert p (active_threads s |-| {|a|}),
              thread_exec_order := thread_exec_order s @ [p],
              threads := (threads s)[a := SetDead (threads s ! a),
                                     p := SetRunning ((threads s)[a := SetDead (threads s ! a)] ! p)],
              pending_threads := ps\<rparr>)"
  using assms
  by (subst evict_lower_priority.simps) (simp add: ActivateThread_def KillThread_def)

lemma evict_lower_priority_reject:
  assumes "heap \<noteq> {||}" "pending_threads s = p # ps" "snd (fMin heap) = a"
    and "p < length (threads s)" "a < length (threads s)"
    and "\<not> GetPriority (threads s ! p) > GetPriority (threads s ! a)"
  shows "evict_lower_priority heap s =
         evict_lower_priority heap
           (s\<lparr>pending_threads := ps,
              threads := (threads s)[p := SetDead (threads s ! p)]\<rparr>)"
  using assms
  by (subst evict_lower_priority.simps) simp

lemma evict_lower_priority_fail:
  assumes "heap \<noteq> {||}" "pending_threads s = p # ps"
    and "\<not> (p < length (threads s) \<and> snd (fMin heap) < length (threads s))"
  shows "evict_lower_priority heap s = Inl ThreadIdOutOfRange"
  using assms
  by (subst evict_lower_priority.simps) auto

lemma evict_lower_priority_rule:
  assumes run: "evict_lower_priority heap s = Inr s'" and init: "P heap s"
    and evict: "\<And>heap s p ps a. P heap s \<Longrightarrow> heap \<noteq> {||} \<Longrightarrow> pending_threads s = p # ps \<Longrightarrow>
                 snd (fMin heap) = a \<Longrightarrow> p < length (threads s) \<Longrightarrow> a < length (threads s) \<Longrightarrow>
                 GetPriority (threads s ! p) > GetPriority (threads s ! a) \<Longrightarrow>
                 P (heap |-| {|fMin heap|})
                   (s\<lparr>active_threads := finsert p (active_threads s |-| {|a|}),
                      thread_exec_order := thread_exec_order s @ [p],
                      threads := (threads s)[a := SetDead (threads s ! a),
                                     p := SetRunning ((threads s)[a := SetDead (threads s ! a)] ! p)],
                      pending_threads := ps\<rparr>)"
    and reject: "\<And>heap s p ps a. P heap s \<Longrightarrow> heap \<noteq> {||} \<Longrightarrow> pending_threads s = p # ps \<Longrightarrow>
                 snd (fMin heap) = a \<Longrightarrow> p < length (threads s) \<Longrightarrow> a < length (threads s) \<Longrightarrow>
                 \<not> GetPriority (threads s ! p) > GetPriority (threads s ! a) \<Longrightarrow>
                 P heap (s\<lparr>pending_threads := ps,
                           threads := (threads s)[p := SetDead (threads s ! p)]\<rparr>)"
  shows "\<exists>heap'. P heap' s' \<and> (heap' = {||} \<or> pending_threads s' = [])"
  using run init
proof (induction "length (pending_threads s)" arbitrary: s heap)
  case 0
  then show ?case by (auto simp add: evict_lower_priority_stop)
next
  case (Suc n)
  then obtain p ps where q: "pending_threads s = p # ps" and n: "n = length ps"
    by (cases "pending_threads s") auto
  show ?case
  proof (cases "heap = {||}")
    case True
    with Suc.prems show ?thesis by (auto simp add: evict_lower_priority_stop)
  next
    case False
    define a where "a = snd (fMin heap)"
    have ok: "p < length (threads s)" "a < length (threads s)"
      using evict_lower_priority_fail [OF False q] Suc.prems(1) by (auto simp: a_def)
    show ?thesis
    proof (cases "GetPriority (threads s ! p) > GetPriority (threads s ! a)")
      case True
      let ?t = "s\<lparr>active_threads := finsert p (active_threads s |-| {|a|}),
                   thread_exec_order := thread_exec_order s @ [p],
                   threads := (threads s)[a := SetDead (threads s ! a),
                                     p := SetRunning ((threads s)[a := SetDead (threads s ! a)] ! p)],
                   pending_threads := ps\<rparr>"
      have "evict_lower_priority (heap |-| {|fMin heap|}) ?t = Inr s'"
        using evict_lower_priority_evict [OF False q a_def [symmetric] ok True] Suc.prems(1) by simp
      moreover have "P (heap |-| {|fMin heap|}) ?t"
        by (rule evict [OF Suc.prems(2) False q a_def [symmetric] ok True])
      moreover have "n = length (pending_threads ?t)" using n by simp
      ultimately show ?thesis by (rule Suc.hyps(1) [rotated])
    next
      case no: False
      let ?t = "s\<lparr>pending_threads := ps,
                   threads := (threads s)[p := SetDead (threads s ! p)]\<rparr>"
      have "evict_lower_priority heap ?t = Inr s'"
        using evict_lower_priority_reject [OF False q a_def [symmetric] ok no] Suc.prems(1) by simp
      moreover have "P heap ?t"
        by (rule reject [OF Suc.prems(2) False q a_def [symmetric] ok no])
      moreover have "n = length (pending_threads ?t)" using n by simp
      ultimately show ?thesis by (rule Suc.hyps(1) [rotated])
    qed
  qed
qed

lemma evict_lower_priority_total:
  assumes init: "P heap s"
    and evict: "\<And>heap s p ps a. P heap s \<Longrightarrow> heap \<noteq> {||} \<Longrightarrow> pending_threads s = p # ps \<Longrightarrow>
                 snd (fMin heap) = a \<Longrightarrow> p < length (threads s) \<Longrightarrow> a < length (threads s) \<Longrightarrow>
                 GetPriority (threads s ! p) > GetPriority (threads s ! a) \<Longrightarrow>
                 P (heap |-| {|fMin heap|})
                   (s\<lparr>active_threads := finsert p (active_threads s |-| {|a|}),
                      thread_exec_order := thread_exec_order s @ [p],
                      threads := (threads s)[a := SetDead (threads s ! a),
                                     p := SetRunning ((threads s)[a := SetDead (threads s ! a)] ! p)],
                      pending_threads := ps\<rparr>)"
    and reject: "\<And>heap s p ps a. P heap s \<Longrightarrow> heap \<noteq> {||} \<Longrightarrow> pending_threads s = p # ps \<Longrightarrow>
                 snd (fMin heap) = a \<Longrightarrow> p < length (threads s) \<Longrightarrow> a < length (threads s) \<Longrightarrow>
                 \<not> GetPriority (threads s ! p) > GetPriority (threads s ! a) \<Longrightarrow>
                 P heap (s\<lparr>pending_threads := ps,
                           threads := (threads s)[p := SetDead (threads s ! p)]\<rparr>)"
    and range: "\<And>heap s p ps. P heap s \<Longrightarrow> heap \<noteq> {||} \<Longrightarrow> pending_threads s = p # ps \<Longrightarrow>
                 p < length (threads s) \<and> snd (fMin heap) < length (threads s)"
  shows "\<exists>s'. evict_lower_priority heap s = Inr s'"
  using init
proof (induction "length (pending_threads s)" arbitrary: s heap)
  case 0
  then show ?case by (auto simp add: evict_lower_priority_stop)
next
  case (Suc n)
  then obtain p ps where q: "pending_threads s = p # ps" and n: "n = length ps"
    by (cases "pending_threads s") auto
  show ?case
  proof (cases "heap = {||}")
    case True
    then show ?thesis by (auto simp add: evict_lower_priority_stop)
  next
    case False
    define a where "a = snd (fMin heap)"
    have ok: "p < length (threads s)" "a < length (threads s)"
      using range [OF Suc.prems False q] by (auto simp: a_def)
    show ?thesis
    proof (cases "GetPriority (threads s ! p) > GetPriority (threads s ! a)")
      case True
      let ?t = "s\<lparr>active_threads := finsert p (active_threads s |-| {|a|}),
                   thread_exec_order := thread_exec_order s @ [p],
                   threads := (threads s)[a := SetDead (threads s ! a),
                                     p := SetRunning ((threads s)[a := SetDead (threads s ! a)] ! p)],
                   pending_threads := ps\<rparr>"
      have "P (heap |-| {|fMin heap|}) ?t"
        by (rule evict [OF Suc.prems False q a_def [symmetric] ok True])
      moreover have "n = length (pending_threads ?t)" using n by simp
      ultimately have "\<exists>s'. evict_lower_priority (heap |-| {|fMin heap|}) ?t = Inr s'"
        by (rule Suc.hyps(1) [rotated])
      then show ?thesis
        using evict_lower_priority_evict [OF False q a_def [symmetric] ok True] by simp
    next
      case no: False
      let ?t = "s\<lparr>pending_threads := ps,
                   threads := (threads s)[p := SetDead (threads s ! p)]\<rparr>"
      have "P heap ?t"
        by (rule reject [OF Suc.prems False q a_def [symmetric] ok no])
      moreover have "n = length (pending_threads ?t)" using n by simp
      ultimately have "\<exists>s'. evict_lower_priority heap ?t = Inr s'"
        by (rule Suc.hyps(1) [rotated])
      then show ?thesis
        using evict_lower_priority_reject [OF False q a_def [symmetric] ok no] by simp
    qed
  qed
qed

lemma reject_leftovers_stop: "pending_threads s = [] \<Longrightarrow> reject_leftovers s = Inr s"
  by (subst reject_leftovers.simps) auto

lemma reject_leftovers_step:
  assumes "pending_threads s = p # ps" "p < length (threads s)"
  shows "reject_leftovers s =
         reject_leftovers (s\<lparr>threads := (threads s)[p := SetDead (threads s ! p)],
                             pending_threads := ps\<rparr>)"
  using assms by (subst reject_leftovers.simps) simp

lemma reject_leftovers_fail:
  assumes "pending_threads s = p # ps" "\<not> p < length (threads s)"
  shows "reject_leftovers s = Inl ThreadIdOutOfRange"
  using assms by (subst reject_leftovers.simps) simp

lemma reject_leftovers_rule:
  assumes run: "reject_leftovers s = Inr s'" and init: "P s"
    and step: "\<And>s p ps. P s \<Longrightarrow> pending_threads s = p # ps \<Longrightarrow> p < length (threads s) \<Longrightarrow>
                 P (s\<lparr>threads := (threads s)[p := SetDead (threads s ! p)],
                      pending_threads := ps\<rparr>)"
  shows "P s' \<and> pending_threads s' = []"
  using run init
proof (induction "length (pending_threads s)" arbitrary: s)
  case 0
  then show ?case by (simp add: reject_leftovers_stop)
next
  case (Suc n)
  then obtain p ps where q: "pending_threads s = p # ps" and n: "n = length ps"
    by (cases "pending_threads s") auto
  have ok: "p < length (threads s)"
    using reject_leftovers_fail [OF q] Suc.prems(1) by fastforce
  let ?t = "s\<lparr>threads := (threads s)[p := SetDead (threads s ! p)], pending_threads := ps\<rparr>"
  have "reject_leftovers ?t = Inr s'"
    using reject_leftovers_step [OF q ok] Suc.prems(1) by simp
  moreover have "P ?t" by (rule step [OF Suc.prems(2) q ok])
  moreover have "n = length (pending_threads ?t)" using n by simp
  ultimately show ?case by (rule Suc.hyps(1) [rotated])
qed

lemma reject_leftovers_total:
  assumes "\<forall>i \<in> set (pending_threads s). i < length (threads s)"
  shows "\<exists>s'. reject_leftovers s = Inr s'"
  using assms
proof (induction "length (pending_threads s)" arbitrary: s)
  case 0
  then show ?case by (simp add: reject_leftovers_stop)
next
  case (Suc n)
  then obtain p ps where q: "pending_threads s = p # ps" and n: "n = length ps"
    by (cases "pending_threads s") auto
  have ok: "p < length (threads s)" using Suc.prems q by simp
  let ?t = "s\<lparr>threads := (threads s)[p := SetDead (threads s ! p)], pending_threads := ps\<rparr>"
  have "n = length (pending_threads ?t)" using n by simp
  moreover have "\<forall>i \<in> set (pending_threads ?t). i < length (threads ?t)"
    using Suc.prems q by simp
  ultimately have "\<exists>s'. reject_leftovers ?t = Inr s'" by (rule Suc.hyps(1))
  then show ?case using reject_leftovers_step [OF q ok] by simp
qed

subsection \<open>What the admission leaves alone\<close>

lemma map_update_same: "f x = f (xs ! i) \<Longrightarrow> map f (xs[i := x]) = map f xs"
  by (induction xs arbitrary: i) (auto split: nat.splits)

lemma same_payload_refl: "same_payload s s"
  by (simp add: same_payload_def)

lemma same_payload_trans: "same_payload s s1 \<Longrightarrow> same_payload s1 s2 \<Longrightarrow> same_payload s s2"
  by (simp add: same_payload_def)

lemma ActivateThread_payload: "ActivateThread i s = Inr s' \<Longrightarrow> same_payload s s'"
  by (auto simp: ActivateThread_def same_payload_def SetRunning_def map_update_same split: if_splits)

lemma KillThread_payload: "KillThread i s = Inr s' \<Longrightarrow> same_payload s s'"
  by (auto simp: KillThread_def same_payload_def SetDead_def map_update_same split: if_splits)

lemma ActivatePendingThreads_cases:
  assumes "ActivatePendingThreads s = Inr s'"
  obtains (none) "pending_threads s = []" "s' = s"
  | (filled) "pending_threads s \<noteq> []" "fill_spare_capacity s = Inr s'" "pending_threads s' = []"
  | (evicting) s1 max_pending heap s2 where
      "pending_threads s \<noteq> []" "fill_spare_capacity s = Inr s1" "pending_threads s1 \<noteq> []"
      "max_pending_priority s1 = Inr max_pending" "active_priorities s1 max_pending = Inr heap"
      "evict_lower_priority heap s1 = Inr s2" "reject_leftovers s2 = Inr s'"
  using assms unfolding ActivatePendingThreads_def
  by (auto split: if_splits sum.splits)

lemma fill_spare_capacity_payload:
  assumes "fill_spare_capacity s = Inr s'"
  shows "same_payload s s'"
proof -
  have "same_payload s s' \<and>
        (pending_threads s' = [] \<or> \<not> fcard (active_threads s') < max_active_threads s')"
    by (rule fill_spare_capacity_rule [OF assms, where P = "same_payload s"])
       (simp_all add: same_payload_def SetRunning_def map_update_same)
  then show ?thesis by simp
qed

lemma evict_lower_priority_payload:
  assumes "evict_lower_priority heap s = Inr s'"
  shows "same_payload s s'"
proof -
  have "\<exists>heap' :: (real \<times> nat) fset. same_payload s s' \<and> (heap' = {||} \<or> pending_threads s' = [])"
    by (rule evict_lower_priority_rule [OF assms, where P = "\<lambda>heap. same_payload s"])
       (simp_all add: same_payload_def SetRunning_def SetDead_def map_update_same)
  then show ?thesis by simp
qed

lemma reject_leftovers_payload:
  assumes "reject_leftovers s = Inr s'"
  shows "same_payload s s'"
proof -
  have "same_payload s s' \<and> pending_threads s' = []"
    by (rule reject_leftovers_rule [OF assms, where P = "same_payload s"])
       (simp_all add: same_payload_def SetDead_def map_update_same)
  then show ?thesis by simp
qed

lemma ActivatePendingThreads_payload:
  assumes "ActivatePendingThreads s = Inr s'"
  shows "same_payload s s'"
  using assms
proof (cases rule: ActivatePendingThreads_cases)
  case none
  then show ?thesis by (simp add: same_payload_refl)
next
  case filled
  then show ?thesis by (simp add: fill_spare_capacity_payload)
next
  case (evicting s1 max_pending heap s2)
  then show ?thesis
    by (blast intro: same_payload_trans fill_spare_capacity_payload
          evict_lower_priority_payload reject_leftovers_payload)
qed

lemma fill_spare_capacity_keeps:
  assumes "fill_spare_capacity s = Inr s'"
  shows "active_threads s |\<subseteq>| active_threads s' \<and>
         (\<forall>i. i \<notin> set (pending_threads s) \<longrightarrow> threads s' ! i = threads s ! i) \<and>
         set (pending_threads s') \<subseteq> set (pending_threads s)"
proof -
  let ?P = "\<lambda>t. active_threads s |\<subseteq>| active_threads t \<and>
         (\<forall>i. i \<notin> set (pending_threads s) \<longrightarrow> threads t ! i = threads s ! i) \<and>
         set (pending_threads t) \<subseteq> set (pending_threads s)"
  have "?P s' \<and> (pending_threads s' = [] \<or> \<not> fcard (active_threads s') < max_active_threads s')"
    by (rule fill_spare_capacity_rule [OF assms, where P = ?P]) (auto simp: nth_list_update)
  then show ?thesis by simp
qed

lemma evict_lower_priority_keeps:
  assumes "evict_lower_priority heap s = Inr s'"
  shows "(\<forall>i. i |\<in>| active_threads s \<and> i \<notin> snd ` fset heap \<longrightarrow> i |\<in>| active_threads s') \<and>
         (\<forall>i. i \<notin> set (pending_threads s) \<and> i \<notin> snd ` fset heap \<longrightarrow>
              threads s' ! i = threads s ! i) \<and>
         set (pending_threads s') \<subseteq> set (pending_threads s)"
proof -
  let ?P = "\<lambda>h t. h |\<subseteq>| heap \<and>
         (\<forall>i. i |\<in>| active_threads s \<and> i \<notin> snd ` fset heap \<longrightarrow> i |\<in>| active_threads t) \<and>
         (\<forall>i. i \<notin> set (pending_threads s) \<and> i \<notin> snd ` fset heap \<longrightarrow>
              threads t ! i = threads s ! i) \<and>
         set (pending_threads t) \<subseteq> set (pending_threads s)"
  have "\<exists>heap' :: (real \<times> nat) fset. ?P heap' s' \<and> (heap' = {||} \<or> pending_threads s' = [])"
  proof (rule evict_lower_priority_rule [OF assms, where P = ?P], goal_cases)
    case 1
    show ?case by simp
  next
    case (2 h t p ps a)
    then have "fMin h |\<in>| heap" by (meson fMin_in fsubsetD)
    then have "a \<in> snd ` fset heap" using 2(4) by force
    with 2 show ?case by (auto simp: nth_list_update)
  next
    case (3 h t p ps a)
    then show ?case by (auto simp: nth_list_update)
  qed
  then show ?thesis by blast
qed

lemma reject_leftovers_keeps:
  assumes "reject_leftovers s = Inr s'"
  shows "active_threads s' = active_threads s \<and> thread_exec_order s' = thread_exec_order s \<and>
         (\<forall>i. i \<notin> set (pending_threads s) \<longrightarrow> threads s' ! i = threads s ! i)"
proof -
  let ?P = "\<lambda>t. active_threads t = active_threads s \<and> thread_exec_order t = thread_exec_order s \<and>
         (\<forall>i. i \<notin> set (pending_threads s) \<longrightarrow> threads t ! i = threads s ! i) \<and>
         set (pending_threads t) \<subseteq> set (pending_threads s)"
  have "?P s' \<and> pending_threads s' = []"
    by (rule reject_leftovers_rule [OF assms, where P = ?P]) (auto simp: nth_list_update)
  then show ?thesis by simp
qed

lemma max_pending_loop_Max:
  "max_pending_loop ths ids m = Inr P \<Longrightarrow>
   P = Max (insert m ((\<lambda>i. GetPriority (ths ! i)) ` set ids)) \<and>
   (\<forall>i \<in> set ids. i < length ths \<and> IsPending (ths ! i))"
proof (induction ids arbitrary: m)
  case Nil
  then show ?case by simp
next
  case (Cons a ids)
  let ?p = "GetPriority (ths ! a)"
  from Cons.prems have ok: "a < length ths" "IsPending (ths ! a)"
    and run: "max_pending_loop ths ids (if ?p > m then ?p else m) = Inr P"
    by (auto simp: Let_def split: if_splits)
  from Cons.IH [OF run]
  have P: "P = Max (insert (if ?p > m then ?p else m) ((\<lambda>i. GetPriority (ths ! i)) ` set ids))"
    and rest: "\<forall>i \<in> set ids. i < length ths \<and> IsPending (ths ! i)" by simp_all
  have "Max (insert (if ?p > m then ?p else m) ((\<lambda>i. GetPriority (ths ! i)) ` set ids)) =
        Max (insert m (insert ?p ((\<lambda>i. GetPriority (ths ! i)) ` set ids)))"
  proof (cases "set ids = {}")
    case True
    then show ?thesis by (simp add: max_def)
  next
    case False
    then show ?thesis by (simp add: max_def)
  qed
  with P rest ok show ?case by simp
qed

lemma max_pending_priority_Max:
  assumes "max_pending_priority s = Inr P" "pending_threads s \<noteq> []"
  shows "P = Max ((\<lambda>i. GetPriority (threads s ! i)) ` set (pending_threads s)) \<and>
         (\<forall>i \<in> set (pending_threads s). i < length (threads s) \<and> IsPending (threads s ! i))"
proof -
  from assms have run: "max_pending_loop (threads s) (pending_threads s)
      (GetPriority (threads s ! hd (pending_threads s))) = Inr P"
    by (simp add: max_pending_priority_def split: if_splits)
  have "insert (GetPriority (threads s ! hd (pending_threads s)))
          ((\<lambda>i. GetPriority (threads s ! i)) ` set (pending_threads s)) =
        (\<lambda>i. GetPriority (threads s ! i)) ` set (pending_threads s)"
    using assms(2) by (cases "pending_threads s") auto
  with max_pending_loop_Max [OF run] show ?thesis by simp
qed

lemma active_priorities_fset:
  assumes "active_priorities s P = Inr heap"
  shows "fset heap = {(GetPriority (threads s ! i), i) | i.
                        i |\<in>| active_threads s \<and> GetPriority (threads s ! i) < P} \<and>
         (\<forall>i. i |\<in>| active_threads s \<longrightarrow> i < length (threads s))"
  using assms by (auto simp: active_priorities_def split: if_splits)

lemmas example_defs = hw_def thr_def B0_def tie_state_def victim_state_def refill_state_def
  spare_state_def full_state_def ignore_events_def B1_def
  spawn_on_event_def reentered_state_def

subsection \<open>The example states, evaluated\<close>

lemma ffilter_finsert_if:
  "ffilter P (finsert x A) = (if P x then finsert x (ffilter P A) else ffilter P A)"
  by auto

lemma ffilter_fempty: "ffilter P {||} = {||}"
  by auto

lemmas eval_simps = ActivatePendingThreads_def fill_spare_capacity.simps evict_lower_priority.simps
  reject_leftovers.simps max_pending_priority_def active_priorities_def ActivateThread_def
  KillThread_def IsPending_def GetPriority_def SetDead_def SetRunning_def fcard_finsert_if
  fcard_fempty Let_def ffilter_finsert_if ffilter_fempty finsert_commute finsert_fminus_if

lemma admit_victim_state:
  "ActivatePendingThreads victim_state =
   Inr (victim_state\<lparr>threads := [thr 1 DEAD, thr 3 RUNNING, thr 2 RUNNING],
          active_threads := {|1, 2|}, thread_exec_order := [0, 1, 2], pending_threads := []\<rparr>)"
  by (simp add: eval_simps example_defs)


lemma admit_tie_state:
  "ActivatePendingThreads tie_state =
   Inr (tie_state\<lparr>threads := [thr 2 RUNNING, thr 2 DEAD], pending_threads := []\<rparr>)"
  by (simp add: eval_simps example_defs)

lemma admit_refill_state:
  "ActivatePendingThreads refill_state =
   Inr (refill_state\<lparr>threads := [thr 5 RUNNING, thr 1 DEAD, thr 3 RUNNING],
          active_threads := {|0, 2|}, thread_exec_order := [0, 1, 2], pending_threads := []\<rparr>)"
  by (simp add: eval_simps example_defs)


subsection \<open>Which active threads the second phase can kill\<close>

lemma admission_immune:
  assumes P: "max_pending_priority s1 = Inr P" and h: "active_priorities s1 P = Inr heap"
    and e: "evict_lower_priority heap s1 = Inr s2" and r: "reject_leftovers s2 = Inr s'"
    and i: "i |\<in>| active_threads s1" "P \<le> GetPriority (threads s1 ! i)"
  shows "i |\<in>| active_threads s' \<and>
         (i \<notin> set (pending_threads s1) \<longrightarrow> threads s' ! i = threads s1 ! i)"
proof -
  have out: "i \<notin> snd ` fset heap"
    using active_priorities_fset [OF h] i(2) by auto
  from evict_lower_priority_keeps [OF e] i(1) out
  have 2: "i |\<in>| active_threads s2"
    "i \<notin> set (pending_threads s1) \<longrightarrow> threads s2 ! i = threads s1 ! i"
    "set (pending_threads s2) \<subseteq> set (pending_threads s1)" by auto
  from reject_leftovers_keeps [OF r]
  have 3: "active_threads s' = active_threads s2"
    "i \<notin> set (pending_threads s2) \<longrightarrow> threads s' ! i = threads s2 ! i" by auto
  from 2 3 show ?thesis by auto
qed



lemma same_payload_priority:
  assumes "same_payload s s'" "i < length (threads s')"
  shows "GetPriority (threads s' ! i) = GetPriority (threads s ! i)"
proof -
  from assms(1) have m: "map priority (threads s') = map priority (threads s)"
    by (simp add: same_payload_def)
  then have l: "length (threads s') = length (threads s)" by (metis length_map)
  have "map priority (threads s') ! i = map priority (threads s) ! i" using m by simp
  then show ?thesis using assms(2) l by (simp add: GetPriority_def)
qed

text \<open>
  C5, as amended. If, when an admission round starts, no pending thread has a priority
  strictly above that of any thread of the active set, then the round kills no thread that
  was active at its start: every such thread is still in the active set when the round
  ends, and its run state is unchanged (its id not being in the pending queue as well).
\<close>

theorem admission_monotonicity:
  assumes run: "ActivatePendingThreads s = Inr s'"
    and le: "\<forall>a. a |\<in>| active_threads s \<longrightarrow>
               (\<forall>p \<in> set (pending_threads s).
                  GetPriority (threads s ! p) \<le> GetPriority (threads s ! a))"
  shows "\<forall>a. a |\<in>| active_threads s \<longrightarrow>
           a |\<in>| active_threads s' \<and>
           (a \<notin> set (pending_threads s) \<longrightarrow>
              run_state (threads s' ! a) = run_state (threads s ! a))"
  using run
proof (cases rule: ActivatePendingThreads_cases)
  case none
  then show ?thesis by simp
next
  case filled
  from fill_spare_capacity_keeps [OF filled(2)] show ?thesis by auto
next
  case (evicting s1 P heap s2)
  note k = fill_spare_capacity_keeps [OF evicting(2)]
  note pay = fill_spare_capacity_payload [OF evicting(2)]
  note mx = max_pending_priority_Max [OF evicting(4) evicting(3)]
  note hp = active_priorities_fset [OF evicting(5)]
  show ?thesis
  proof (intro allI impI)
    fix a assume a: "a |\<in>| active_threads s"
    then have a1: "a |\<in>| active_threads s1" using k by auto
    then have ar: "a < length (threads s1)" using hp by simp
    have "\<forall>p \<in> set (pending_threads s1). GetPriority (threads s1 ! p) \<le> GetPriority (threads s1 ! a)"
    proof
      fix p assume p: "p \<in> set (pending_threads s1)"
      then have "p \<in> set (pending_threads s)" "p < length (threads s1)" using k mx by auto
      then show "GetPriority (threads s1 ! p) \<le> GetPriority (threads s1 ! a)"
        using le a ar by (simp add: same_payload_priority [OF pay])
    qed
    then have "P \<le> GetPriority (threads s1 ! a)"
      using mx evicting(3) by simp
    from admission_immune [OF evicting(4) evicting(5) evicting(6) evicting(7) a1 this]
    have "a |\<in>| active_threads s'"
      "a \<notin> set (pending_threads s1) \<longrightarrow> threads s' ! a = threads s1 ! a" by simp_all
    moreover have "a \<notin> set (pending_threads s) \<longrightarrow> a \<notin> set (pending_threads s1) \<and> threads s1 ! a = threads s ! a"
      using k by auto
    ultimately show "a |\<in>| active_threads s' \<and>
           (a \<notin> set (pending_threads s) \<longrightarrow>
              run_state (threads s' ! a) = run_state (threads s ! a))" by auto
  qed
qed

theorem admission_monotonicity_witness:
  "ActivatePendingThreads refill_state =
     Inr (refill_state\<lparr>threads := [thr 5 RUNNING, thr 1 DEAD, thr 3 RUNNING],
            active_threads := {|0, 2|}, thread_exec_order := [0, 1, 2], pending_threads := []\<rparr>) \<and>
   active_threads refill_state = {|0|} \<and>
   GetPriority (threads refill_state ! 1) \<le> GetPriority (threads refill_state ! 0) \<and>
   GetPriority (threads refill_state ! 2) \<le> GetPriority (threads refill_state ! 0) \<and>
   0 |\<in>| active_threads
           (refill_state\<lparr>threads := [thr 5 RUNNING, thr 1 DEAD, thr 3 RUNNING],
              active_threads := {|0, 2|}, thread_exec_order := [0, 1, 2], pending_threads := []\<rparr>)"
proof -
  have le: "\<forall>a. a |\<in>| active_threads refill_state \<longrightarrow>
               (\<forall>p \<in> set (pending_threads refill_state).
                  GetPriority (threads refill_state ! p) \<le> GetPriority (threads refill_state ! a))"
    by (simp add: example_defs GetPriority_def)
  have a: "0 |\<in>| active_threads refill_state" by (simp add: example_defs)
  from admission_monotonicity [OF admit_refill_state le] a
  have "0 |\<in>| active_threads
           (refill_state\<lparr>threads := [thr 5 RUNNING, thr 1 DEAD, thr 3 RUNNING],
              active_threads := {|0, 2|}, thread_exec_order := [0, 1, 2], pending_threads := []\<rparr>)"
    by blast
  then show ?thesis using admit_refill_state
    by (simp add: example_defs GetPriority_def)
qed

text \<open>C5, counterexample. The property does not extend to a thread that the first loop of
  the same round admits. In \<open>refill_state\<close> the only active thread has priority 5 and the pending threads
  have priorities 1 and 3, with room for two active threads: thread 1 fills the free slot,
  and is then killed to make room for thread 2.\<close>

theorem admission_kills_admitted_thread:
  "active_threads refill_state = {|0|} \<and> pending_threads refill_state = [1, 2] \<and>
   GetPriority (threads refill_state ! 1) \<le> GetPriority (threads refill_state ! 0) \<and>
   GetPriority (threads refill_state ! 2) \<le> GetPriority (threads refill_state ! 0) \<and>
   fill_spare_capacity refill_state =
     Inr (refill_state\<lparr>threads := [thr 5 RUNNING, thr 1 RUNNING, thr 3 PENDING],
            active_threads := {|0, 1|}, thread_exec_order := [0, 1], pending_threads := [2]\<rparr>) \<and>
   KillThread 1
       (refill_state\<lparr>threads := [thr 5 RUNNING, thr 1 RUNNING, thr 3 PENDING],
            active_threads := {|0, 1|}, thread_exec_order := [0, 1], pending_threads := [2]\<rparr>) =
     Inr (refill_state\<lparr>threads := [thr 5 RUNNING, thr 1 DEAD, thr 3 PENDING],
            active_threads := {|0|}, thread_exec_order := [0, 1], pending_threads := [2]\<rparr>) \<and>
   ActivatePendingThreads refill_state =
     Inr (refill_state\<lparr>threads := [thr 5 RUNNING, thr 1 DEAD, thr 3 RUNNING],
            active_threads := {|0, 2|}, thread_exec_order := [0, 1, 2], pending_threads := []\<rparr>)"
  by (simp add: eval_simps example_defs)

subsection \<open>Scheduling and the payload of a thread\<close>

text \<open>
  C9. \<^verbatim>\<open>ActivateThread\<close>, \<^verbatim>\<open>KillThread\<close> and \<^verbatim>\<open>ActivatePendingThreads\<close> leave the priority and
  the execution state of every thread as they were, and with them the unused stack, the
  event queue, the limits, the current thread id, the executing flag and the custom
  component: they change run states, the active set, the pending queue and the execution
  order only. \<^verbatim>\<open>QueueEvent\<close> and \<^verbatim>\<open>SetCustomComponent\<close> do not touch the threads at all.
\<close>

theorem scheduling_keeps_payload:
  "(ActivateThread i s = Inr s' \<longrightarrow> same_payload s s') \<and>
   (KillThread i s = Inr s' \<longrightarrow> same_payload s s') \<and>
   (ActivatePendingThreads s = Inr s' \<longrightarrow> same_payload s s') \<and>
   threads (QueueEvent event s) = threads s \<and>
   threads (SetCustomComponent val s) = threads s"
  by (simp add: ActivateThread_payload KillThread_payload ActivatePendingThreads_payload
        QueueEvent_def SetCustomComponent_def)

theorem scheduling_keeps_payload_witness:
  "ActivatePendingThreads victim_state =
     Inr (victim_state\<lparr>threads := [thr 1 DEAD, thr 3 RUNNING, thr 2 RUNNING],
            active_threads := {|1, 2|}, thread_exec_order := [0, 1, 2], pending_threads := []\<rparr>) \<and>
   KillThread 0 victim_state =
     Inr (victim_state\<lparr>threads := [thr 1 DEAD, thr 3 RUNNING, thr 2 PENDING],
            active_threads := {|1|}\<rparr>) \<and>
   ActivateThread 2 victim_state =
     Inr (victim_state\<lparr>threads := [thr 1 RUNNING, thr 3 RUNNING, thr 2 RUNNING],
            active_threads := {|0, 1, 2|}, thread_exec_order := [0, 1, 2]\<rparr>) \<and>
   map priority [thr 1 DEAD, thr 3 RUNNING, thr 2 RUNNING] = map priority (threads victim_state) \<and>
   map exec_state [thr 1 DEAD, thr 3 RUNNING, thr 2 RUNNING] = map exec_state (threads victim_state)"
proof -
  have k: "KillThread 0 victim_state =
     Inr (victim_state\<lparr>threads := [thr 1 DEAD, thr 3 RUNNING, thr 2 PENDING],
            active_threads := {|1|}\<rparr>)"
    by (simp add: eval_simps example_defs)
  have a: "ActivateThread 2 victim_state =
     Inr (victim_state\<lparr>threads := [thr 1 RUNNING, thr 3 RUNNING, thr 2 RUNNING],
            active_threads := {|0, 1, 2|}, thread_exec_order := [0, 1, 2]\<rparr>)"
    by (simp add: eval_simps example_defs)
  from scheduling_keeps_payload [of 0 victim_state _ _ _, THEN conjunct2, THEN conjunct2, THEN conjunct1]
    admit_victim_state
  have "same_payload victim_state
          (victim_state\<lparr>threads := [thr 1 DEAD, thr 3 RUNNING, thr 2 RUNNING],
            active_threads := {|1, 2|}, thread_exec_order := [0, 1, 2], pending_threads := []\<rparr>)"
    by blast
  then show ?thesis using k a admit_victim_state by (simp add: same_payload_def)
qed

subsection \<open>The first loop\<close>







subsection \<open>The second loop\<close>



subsection \<open>Spawning\<close>

text \<open>
  C4. In a state whose unused ids are indices of the pool and whose pool is within
  \<^verbatim>\<open>max_thread_space\<close>, \<^verbatim>\<open>SpawnThreadWithID\<close> returns no id exactly when the unused stack is
  empty and the pool has \<^verbatim>\<open>max_thread_space\<close> threads, and then the state is the one it was
  called in. Otherwise it returns the id at the top of the unused stack, popped, or, the
  stack being empty, the index of one fresh thread appended to the pool. \<^verbatim>\<open>InitThread\<close> is
  handed that thread reset and given the priority (its execution state cleared, the given
  priority, dead); what \<^verbatim>\<open>InitThread\<close> returns is marked pending and stored, and the id is
  appended to the pending queue. Nothing else changes.
\<close>

theorem SpawnThreadWithID_result:
  assumes "\<forall>i \<in> set (unused_threads s). i < length (threads s)"
    and "length (threads s) \<le> max_thread_space s"
  shows "((\<exists>s'. SpawnThreadWithID B module_id prio s = Inr (None, s')) \<longleftrightarrow>
            unused_threads s = [] \<and> length (threads s) = max_thread_space s) \<and>
         (unused_threads s = [] \<and> length (threads s) = max_thread_space s \<longrightarrow>
            SpawnThreadWithID B module_id prio s = Inr (None, s)) \<and>
         (unused_threads s \<noteq> [] \<longrightarrow>
            SpawnThreadWithID B module_id prio s =
              Inr (Some (last (unused_threads s)),
                   s\<lparr>unused_threads := butlast (unused_threads s),
                      threads := (threads s)[last (unused_threads s) :=
                        (InitThread B
                           \<lparr>exec_state = Clear B (exec_state (threads s ! last (unused_threads s))),
                            priority = prio, run_state = DEAD\<rparr>
                           module_id)\<lparr>run_state := PENDING\<rparr>],
                      pending_threads := pending_threads s @ [last (unused_threads s)]\<rparr>)) \<and>
         (unused_threads s = [] \<and> length (threads s) < max_thread_space s \<longrightarrow>
            SpawnThreadWithID B module_id prio s =
              Inr (Some (length (threads s)),
                   s\<lparr>threads := threads s @
                        [(InitThread B
                            \<lparr>exec_state = Clear B (exec_state_t B),
                             priority = prio, run_state = DEAD\<rparr>
                            module_id)\<lparr>run_state := PENDING\<rparr>],
                      pending_threads := pending_threads s @ [length (threads s)]\<rparr>))"
proof -
  have top: "unused_threads s \<noteq> [] \<Longrightarrow> last (unused_threads s) < length (threads s)"
    using assms(1) last_in_set by blast
  have handed: "SetPriority prio (Reset B t) =
                \<lparr>exec_state = Clear B (exec_state t), priority = prio, run_state = DEAD\<rparr>"
    for t :: "'a Thread"
    by (simp add: SetPriority_def Reset_def)
  show ?thesis
    using assms(2) top
    by (auto simp: SpawnThreadWithID_def Let_def handed SetPending_def Thread_ctor_def)
qed

theorem SpawnThreadWithID_result_witness:
  "length (threads full_state) \<le> max_thread_space full_state \<and>
   unused_threads full_state = [] \<and> length (threads full_state) = max_thread_space full_state \<and>
   SpawnThreadWithID B1 5 3 full_state = Inr (None, full_state) \<and>
   unused_threads spare_state = [3] \<and> threads spare_state ! 3 = thr 1 DEAD \<and>
   exec_state (thr 1 DEAD) = 7 \<and>
   SpawnThreadWithID B1 5 3 spare_state =
     Inr (Some 3, spare_state\<lparr>unused_threads := [],
            threads := [thr 1 RUNNING, thr 1 PENDING, thr 6 PENDING,
                        \<lparr>exec_state = 5, priority = 3, run_state = PENDING\<rparr>],
            pending_threads := [1, 2, 3]\<rparr>) \<and>
   unused_threads victim_state = [] \<and>
   length (threads victim_state) < max_thread_space victim_state \<and>
   SpawnThreadWithID B1 5 3 victim_state =
     Inr (Some 3, victim_state\<lparr>
            threads := [thr 1 RUNNING, thr 3 RUNNING, thr 2 PENDING,
                        \<lparr>exec_state = 5, priority = 3, run_state = PENDING\<rparr>],
            pending_threads := [2, 3]\<rparr>)"
proof -
  have h: "\<forall>i \<in> set (unused_threads full_state). i < length (threads full_state)"
    "length (threads full_state) \<le> max_thread_space full_state"
    by (simp_all add: example_defs)
  have e: "unused_threads full_state = [] \<and> length (threads full_state) = max_thread_space full_state"
    by (simp add: example_defs)
  from SpawnThreadWithID_result [OF h, of B1 5 3] e
  have 1: "SpawnThreadWithID B1 5 3 full_state = Inr (None, full_state)" by blast
  have hs: "\<forall>i \<in> set (unused_threads spare_state). i < length (threads spare_state)"
    "length (threads spare_state) \<le> max_thread_space spare_state"
    "unused_threads spare_state \<noteq> []"
    by (simp_all add: example_defs)
  from SpawnThreadWithID_result [OF hs(1,2), of B1 5 3] hs(3)
  have "SpawnThreadWithID B1 5 3 spare_state =
          Inr (Some (last (unused_threads spare_state)),
               spare_state\<lparr>unused_threads := butlast (unused_threads spare_state),
                 threads := (threads spare_state)[last (unused_threads spare_state) :=
                   (InitThread B1
                      \<lparr>exec_state =
                         Clear B1 (exec_state (threads spare_state ! last (unused_threads spare_state))),
                       priority = 3, run_state = DEAD\<rparr> 5)\<lparr>run_state := PENDING\<rparr>],
                 pending_threads := pending_threads spare_state @ [last (unused_threads spare_state)]\<rparr>)"
    by blast
  then have 2: "SpawnThreadWithID B1 5 3 spare_state =
     Inr (Some 3, spare_state\<lparr>unused_threads := [],
            threads := [thr 1 RUNNING, thr 1 PENDING, thr 6 PENDING,
                        \<lparr>exec_state = 5, priority = 3, run_state = PENDING\<rparr>],
            pending_threads := [1, 2, 3]\<rparr>)"
    by (simp add: example_defs)
  have hv: "\<forall>i \<in> set (unused_threads victim_state). i < length (threads victim_state)"
    "length (threads victim_state) \<le> max_thread_space victim_state"
    "unused_threads victim_state = [] \<and> length (threads victim_state) < max_thread_space victim_state"
    by (simp_all add: example_defs)
  from SpawnThreadWithID_result [OF hv(1,2), of B1 5 3] hv(3)
  have "SpawnThreadWithID B1 5 3 victim_state =
          Inr (Some (length (threads victim_state)),
               victim_state\<lparr>threads := threads victim_state @
                    [(InitThread B1
                        \<lparr>exec_state = Clear B1 (exec_state_t B1),
                         priority = 3, run_state = DEAD\<rparr> 5)\<lparr>run_state := PENDING\<rparr>],
                  pending_threads := pending_threads victim_state @ [length (threads victim_state)]\<rparr>)"
    by blast
  then have 3: "SpawnThreadWithID B1 5 3 victim_state =
     Inr (Some 3, victim_state\<lparr>
            threads := [thr 1 RUNNING, thr 3 RUNNING, thr 2 PENDING,
                        \<lparr>exec_state = 5, priority = 3, run_state = PENDING\<rparr>],
            pending_threads := [2, 3]\<rparr>)"
    by (simp add: example_defs)
  have "unused_threads spare_state = [3] \<and> threads spare_state ! 3 = thr 1 DEAD \<and>
        exec_state (thr 1 DEAD) = 7"
    by (simp add: example_defs)
  with h e hv 1 2 3 show ?thesis by simp
qed

subsection \<open>The executing flag\<close>

lemma fill_spare_capacity_fail_range:
  assumes "pending_threads s = p # ps" "fcard (active_threads s) < max_active_threads s"
    and "\<not> p < length (threads s)"
  shows "fill_spare_capacity s = Inl ThreadIdOutOfRange"
  using assms by (subst fill_spare_capacity.simps) simp

lemma fill_spare_capacity_fail_pending:
  assumes "pending_threads s = p # ps" "fcard (active_threads s) < max_active_threads s"
    and "p < length (threads s)" "\<not> IsPending (threads s ! p)"
  shows "fill_spare_capacity s = Inl ThreadNotPending"
  using assms by (subst fill_spare_capacity.simps) simp

lemma fill_spare_capacity_flag:
  "fill_spare_capacity (s\<lparr>is_executing := b\<rparr>) =
   map_sum id (\<lambda>t. t\<lparr>is_executing := b\<rparr>) (fill_spare_capacity s)"
proof (induction "length (pending_threads s)" arbitrary: s)
  case 0
  then show ?case by (simp add: fill_spare_capacity_stop)
next
  case (Suc n)
  then obtain p ps where q: "pending_threads s = p # ps" and n: "n = length ps"
    by (cases "pending_threads s") auto
  let ?s = "s\<lparr>is_executing := b\<rparr>"
  have q': "pending_threads ?s = p # ps" using q by simp
  show ?case
  proof (cases "fcard (active_threads s) < max_active_threads s")
    case False
    then show ?thesis by (simp add: fill_spare_capacity_stop)
  next
    case True
    then have True': "fcard (active_threads ?s) < max_active_threads ?s" by simp
    show ?thesis
    proof (cases "p < length (threads s)")
      case False
      then show ?thesis
        using fill_spare_capacity_fail_range [OF q True]
          fill_spare_capacity_fail_range [OF q' True'] by simp
    next
      case r: True
      show ?thesis
      proof (cases "IsPending (threads s ! p)")
        case False
        then show ?thesis
          using fill_spare_capacity_fail_pending [OF q True r]
            fill_spare_capacity_fail_pending [OF q' True'] r by simp
      next
        case pe: True
        let ?t = "s\<lparr>active_threads := finsert p (active_threads s),
                     thread_exec_order := thread_exec_order s @ [p],
                     threads := (threads s)[p := SetRunning (threads s ! p)],
                     pending_threads := ps\<rparr>"
        let ?t' = "?s\<lparr>active_threads := finsert p (active_threads ?s),
                     thread_exec_order := thread_exec_order ?s @ [p],
                     threads := (threads ?s)[p := SetRunning (threads ?s ! p)],
                     pending_threads := ps\<rparr>"
        have eq: "?t' = ?t\<lparr>is_executing := b\<rparr>" by simp
        have "n = length (pending_threads ?t)" using n by simp
        from Suc.hyps(1) [OF this]
        have "fill_spare_capacity (?t\<lparr>is_executing := b\<rparr>) =
              map_sum id (\<lambda>t. t\<lparr>is_executing := b\<rparr>) (fill_spare_capacity ?t)" .
        moreover have "fill_spare_capacity ?s = fill_spare_capacity ?t'"
          by (rule fill_spare_capacity_step [OF q' True']) (use r pe in simp_all)
        moreover have "fill_spare_capacity s = fill_spare_capacity ?t"
          by (rule fill_spare_capacity_step [OF q True r pe])
        ultimately show ?thesis by (simp only: eq)
      qed
    qed
  qed
qed

lemma evict_lower_priority_flag:
  "evict_lower_priority heap (s\<lparr>is_executing := b\<rparr>) =
   map_sum id (\<lambda>t. t\<lparr>is_executing := b\<rparr>) (evict_lower_priority heap s)"
proof (induction "length (pending_threads s)" arbitrary: s heap)
  case 0
  then show ?case by (simp add: evict_lower_priority_stop)
next
  case (Suc n)
  then obtain p ps where q: "pending_threads s = p # ps" and n: "n = length ps"
    by (cases "pending_threads s") auto
  let ?s = "s\<lparr>is_executing := b\<rparr>"
  have q': "pending_threads ?s = p # ps" using q by simp
  show ?case
  proof (cases "heap = {||}")
    case True
    then show ?thesis by (simp add: evict_lower_priority_stop)
  next
    case False
    define a where "a = snd (fMin heap)"
    show ?thesis
    proof (cases "p < length (threads s) \<and> a < length (threads s)")
      case no: False
      then show ?thesis
        using evict_lower_priority_fail [OF False q] evict_lower_priority_fail [OF False q']
        by (simp add: a_def)
    next
      case True
      then have ok: "p < length (threads s)" "a < length (threads s)"
        and ok': "p < length (threads ?s)" "a < length (threads ?s)" by simp_all
      show ?thesis
      proof (cases "GetPriority (threads s ! p) > GetPriority (threads s ! a)")
        case gt: True
        then have gt': "GetPriority (threads ?s ! p) > GetPriority (threads ?s ! a)" by simp
        let ?t = "s\<lparr>active_threads := finsert p (active_threads s |-| {|a|}),
                     thread_exec_order := thread_exec_order s @ [p],
                     threads := (threads s)[a := SetDead (threads s ! a),
                                  p := SetRunning ((threads s)[a := SetDead (threads s ! a)] ! p)],
                     pending_threads := ps\<rparr>"
        let ?t' = "?s\<lparr>active_threads := finsert p (active_threads ?s |-| {|a|}),
                     thread_exec_order := thread_exec_order ?s @ [p],
                     threads := (threads ?s)[a := SetDead (threads ?s ! a),
                                  p := SetRunning ((threads ?s)[a := SetDead (threads ?s ! a)] ! p)],
                     pending_threads := ps\<rparr>"
        have eq: "?t' = ?t\<lparr>is_executing := b\<rparr>" by simp
        have "n = length (pending_threads ?t)" using n by simp
        from Suc.hyps(1) [OF this, of "heap |-| {|fMin heap|}"]
        have "evict_lower_priority (heap |-| {|fMin heap|}) (?t\<lparr>is_executing := b\<rparr>) =
              map_sum id (\<lambda>t. t\<lparr>is_executing := b\<rparr>)
                (evict_lower_priority (heap |-| {|fMin heap|}) ?t)" .
        moreover have "evict_lower_priority heap ?s = evict_lower_priority (heap |-| {|fMin heap|}) ?t'"
          by (rule evict_lower_priority_evict [OF False q' a_def [symmetric] ok' gt'])
        moreover have "evict_lower_priority heap s = evict_lower_priority (heap |-| {|fMin heap|}) ?t"
          by (rule evict_lower_priority_evict [OF False q a_def [symmetric] ok gt])
        ultimately show ?thesis by (simp only: eq)
      next
        case le: False
        then have le': "\<not> GetPriority (threads ?s ! p) > GetPriority (threads ?s ! a)" by simp
        let ?t = "s\<lparr>pending_threads := ps,
                     threads := (threads s)[p := SetDead (threads s ! p)]\<rparr>"
        let ?t' = "?s\<lparr>pending_threads := ps,
                     threads := (threads ?s)[p := SetDead (threads ?s ! p)]\<rparr>"
        have eq: "?t' = ?t\<lparr>is_executing := b\<rparr>" by simp
        have "n = length (pending_threads ?t)" using n by simp
        from Suc.hyps(1) [OF this, of heap]
        have "evict_lower_priority heap (?t\<lparr>is_executing := b\<rparr>) =
              map_sum id (\<lambda>t. t\<lparr>is_executing := b\<rparr>) (evict_lower_priority heap ?t)" .
        moreover have "evict_lower_priority heap ?s = evict_lower_priority heap ?t'"
          by (rule evict_lower_priority_reject [OF False q' a_def [symmetric] ok' le'])
        moreover have "evict_lower_priority heap s = evict_lower_priority heap ?t"
          by (rule evict_lower_priority_reject [OF False q a_def [symmetric] ok le])
        ultimately show ?thesis by (simp only: eq)
      qed
    qed
  qed
qed

lemma reject_leftovers_flag:
  "reject_leftovers (s\<lparr>is_executing := b\<rparr>) =
   map_sum id (\<lambda>t. t\<lparr>is_executing := b\<rparr>) (reject_leftovers s)"
proof (induction "length (pending_threads s)" arbitrary: s)
  case 0
  then show ?case by (simp add: reject_leftovers_stop)
next
  case (Suc n)
  then obtain p ps where q: "pending_threads s = p # ps" and n: "n = length ps"
    by (cases "pending_threads s") auto
  let ?s = "s\<lparr>is_executing := b\<rparr>"
  have q': "pending_threads ?s = p # ps" using q by simp
  show ?case
  proof (cases "p < length (threads s)")
    case False
    then show ?thesis
      using reject_leftovers_fail [OF q] reject_leftovers_fail [OF q'] by simp
  next
    case True
    let ?t = "s\<lparr>threads := (threads s)[p := SetDead (threads s ! p)], pending_threads := ps\<rparr>"
    let ?t' = "?s\<lparr>threads := (threads ?s)[p := SetDead (threads ?s ! p)], pending_threads := ps\<rparr>"
    have eq: "?t' = ?t\<lparr>is_executing := b\<rparr>" by simp
    have "n = length (pending_threads ?t)" using n by simp
    from Suc.hyps(1) [OF this]
    have "reject_leftovers (?t\<lparr>is_executing := b\<rparr>) =
          map_sum id (\<lambda>t. t\<lparr>is_executing := b\<rparr>) (reject_leftovers ?t)" .
    moreover have "reject_leftovers ?s = reject_leftovers ?t'"
      by (rule reject_leftovers_step [OF q']) (use True in simp)
    moreover have "reject_leftovers s = reject_leftovers ?t"
      by (rule reject_leftovers_step [OF q True])
    ultimately show ?thesis by (simp only: eq)
  qed
qed

lemma ActivatePendingThreads_flag:
  "ActivatePendingThreads (s\<lparr>is_executing := b\<rparr>) =
   map_sum id (\<lambda>t. t\<lparr>is_executing := b\<rparr>) (ActivatePendingThreads s)"
proof -
  have m: "max_pending_priority (t\<lparr>is_executing := b\<rparr>) = max_pending_priority t"
    for t :: "('a, 'b) BaseSignalGP"
    by (simp add: max_pending_priority_def)
  have h: "active_priorities (t\<lparr>is_executing := b\<rparr>) P = active_priorities t P"
    for t :: "('a, 'b) BaseSignalGP" and P
    by (simp add: active_priorities_def)
  show ?thesis
    unfolding ActivatePendingThreads_def
    by (auto simp: fill_spare_capacity_flag evict_lower_priority_flag reject_leftovers_flag m h
          split: sum.splits)
qed

lemma handle_events_empty: "event_queue s = [] \<Longrightarrow> handle_events HandleEvent s = Some (Inr s)"
  by (subst handle_events.simps) simp

lemma SingleProcess_begin_flag:
  assumes "event_queue s = []"
  shows "SingleProcess_begin HandleEvent (s\<lparr>is_executing := b\<rparr>) = SingleProcess_begin HandleEvent s"
  using assms
  by (auto simp: SingleProcess_begin_def handle_events_empty ActivatePendingThreads_flag
        split: sum.splits)

text \<open>\<^verbatim>\<open>BaseResetState\<close> fails its assertion exactly when the executing flag is set, and
  returns a state otherwise. \<^verbatim>\<open>SingleProcess\<close> has no such assertion: from its entry to
  \<^verbatim>\<open>is_executing = true\<close>, with no event to handle, it does the same whatever the value
  of the flag.\<close>

lemma reset_guarded_by_is_executing:
  "(is_executing s \<longrightarrow> BaseResetState B s = Inl ResetWhileExecuting) \<and>
   (\<not> is_executing s \<longrightarrow> (\<exists>s'. BaseResetState B s = Inr s')) \<and>
   (event_queue s = [] \<longrightarrow>
      SingleProcess_begin HandleEvent (s\<lparr>is_executing := b\<rparr>) = SingleProcess_begin HandleEvent s)"
  by (simp add: BaseResetState_def Let_def SingleProcess_begin_flag)

lemma handle_events_reentered:
  "handle_events spawn_on_event reentered_state =
     Some (Inr (spare_state\<lparr>event_queue := [],
                  threads := [thr 1 RUNNING, thr 1 PENDING, thr 6 PENDING,
                              \<lparr>exec_state = 5, priority = 1, run_state = PENDING\<rparr>],
                  unused_threads := [], pending_threads := [1, 2, 3],
                  is_executing := True\<rparr>))"
proof -
  let ?x = "spare_state\<lparr>event_queue := [],
                  threads := [thr 1 RUNNING, thr 1 PENDING, thr 6 PENDING,
                              \<lparr>exec_state = 5, priority = 1, run_state = PENDING\<rparr>],
                  unused_threads := [], pending_threads := [1, 2, 3],
                  is_executing := True\<rparr>"
  have "handle_events spawn_on_event reentered_state = handle_events spawn_on_event ?x"
    by (subst handle_events.simps)
       (simp add: example_defs SpawnThreadWithID_def Reset_def SetPriority_def SetPending_def)
  moreover have "handle_events spawn_on_event ?x = Some (Inr ?x)"
    by (rule handle_events_empty) simp
  ultimately show ?thesis by simp
qed

lemma admit_reentered:
  "ActivatePendingThreads
     (spare_state\<lparr>event_queue := [],
        threads := [thr 1 RUNNING, thr 1 PENDING, thr 6 PENDING,
                    \<lparr>exec_state = 5, priority = 1, run_state = PENDING\<rparr>],
        unused_threads := [], pending_threads := [1, 2, 3],
        is_executing := True\<rparr>) =
   Inr (spare_state\<lparr>event_queue := [],
          threads := [thr 1 RUNNING, thr 1 RUNNING, thr 6 RUNNING,
                      \<lparr>exec_state = 5, priority = 1, run_state = RUNNING\<rparr>],
          thread_exec_order := [0, 1, 2, 3], active_threads := {|0, 1, 2, 3|},
          unused_threads := [], pending_threads := [],
          is_executing := True\<rparr>)"
  by (simp add: eval_simps example_defs)

text \<open>
  C7, at the failing input. On a hardware whose executing flag is set and whose event queue
  holds one event, \<^verbatim>\<open>BaseResetState\<close> fails its assertion (\<^verbatim>\<open>SetThreadLimit\<close> carries the
  same one); \<^verbatim>\<open>SingleProcess\<close> does not fail on entry: it handles the event
  (the handler spawns thread 3), admits the three pending threads and reaches
  \<^verbatim>\<open>is_executing = true\<close>.
\<close>

theorem SingleProcess_while_executing:
  "is_executing reentered_state \<and>
   event_queue reentered_state = [BaseEvent 5] \<and>
   BaseResetState B1 reentered_state = Inl ResetWhileExecuting \<and>
   SingleProcess_begin spawn_on_event reentered_state =
     Some (Inr (spare_state\<lparr>event_queue := [],
                  threads := [thr 1 RUNNING, thr 1 RUNNING, thr 6 RUNNING,
                              \<lparr>exec_state = 5, priority = 1, run_state = RUNNING\<rparr>],
                  thread_exec_order := [0, 1, 2, 3], active_threads := {|0, 1, 2, 3|},
                  unused_threads := [], pending_threads := [],
                  is_executing := True\<rparr>))"
proof -
  have c: "fcard {|0, Suc 0, 2, 3::nat|} \<le> max_active_threads spare_state"
    by (simp add: example_defs fcard_finsert_if fcard_fempty)
  have b: "SingleProcess_begin spawn_on_event reentered_state =
     Some (Inr (spare_state\<lparr>event_queue := [],
                  threads := [thr 1 RUNNING, thr 1 RUNNING, thr 6 RUNNING,
                              \<lparr>exec_state = 5, priority = 1, run_state = RUNNING\<rparr>],
                  thread_exec_order := [0, 1, 2, 3], active_threads := {|0, 1, 2, 3|},
                  unused_threads := [], pending_threads := [],
                  is_executing := True\<rparr>))"
    unfolding SingleProcess_begin_def handle_events_reentered
    by (simp only: option.case sum.case admit_reentered) (simp add: c)
  have "is_executing reentered_state \<and> event_queue reentered_state = [BaseEvent 5] \<and>
        BaseResetState B1 reentered_state = Inl ResetWhileExecuting"
    by (simp add: reentered_state_def BaseResetState_def)
  with b show ?thesis by simp
qed

subsection \<open>Reset\<close>

lemma reverse_index_list: "map (\<lambda>i. (n - 1) - i) [0..<n] = rev [0..<n]"
  by (rule nth_equalityI) (simp_all add: rev_nth)

lemma Reset_eq:
  "Reset B (t::'e Thread) = \<lparr>exec_state = Clear B (exec_state t), priority = 1, run_state = DEAD\<rparr>"
  by (simp add: Reset_def)

text \<open>
  C8. \<^verbatim>\<open>BaseResetState\<close>, on a hardware that is not executing, returns a state in which the
  event queue is empty, every thread slot has its execution state cleared, priority 1 and
  run state \<open>DEAD\<close>, the execution order, the active set and the pending queue are empty,
  the unused stack holds every thread id in reverse index order (so that its top, the last
  element, is id 0), the current thread id is \<^verbatim>\<open>(size_t)-1\<close> and the executing flag is
  clear; the custom component and the two limits are as before.
\<close>

theorem BaseResetState_effect:
  assumes "\<not> is_executing s"
  shows "\<exists>s'. BaseResetState B s = Inr s' \<and>
           event_queue s' = [] \<and>
           threads s' = map (\<lambda>t. \<lparr>exec_state = Clear B (exec_state t), priority = 1,
                                   run_state = DEAD\<rparr>) (threads s) \<and>
           thread_exec_order s' = [] \<and>
           active_threads s' = {||} \<and>
           pending_threads s' = [] \<and>
           unused_threads s' = rev [0..<length (threads s)] \<and>
           (threads s \<noteq> [] \<longrightarrow> last (unused_threads s') = 0) \<and>
           cur_thread_id s' = size_t_minus_1 \<and>
           \<not> is_executing s' \<and>
           custom_component s' = custom_component s \<and>
           max_active_threads s' = max_active_threads s \<and>
           max_thread_space s' = max_thread_space s"
  using assms
  unfolding BaseResetState_def Let_def reverse_index_list
  by (simp add: Reset_eq last_rev hd_upt)

theorem BaseResetState_effect_witness:
  "\<not> is_executing victim_state \<and>
   (\<exists>s'. BaseResetState B0 victim_state = Inr s' \<and>
      threads s' = [\<lparr>exec_state = 0, priority = 1, run_state = DEAD\<rparr>,
                    \<lparr>exec_state = 0, priority = 1, run_state = DEAD\<rparr>,
                    \<lparr>exec_state = 0, priority = 1, run_state = DEAD\<rparr>] \<and>
      unused_threads s' = [2, 1, 0] \<and> active_threads s' = {||} \<and> pending_threads s' = [] \<and>
      thread_exec_order s' = [] \<and> custom_component s' = ())"
proof -
  have h: "\<not> is_executing victim_state" by (simp add: example_defs)
  from BaseResetState_effect [OF h, of B0] obtain s' where
    "BaseResetState B0 victim_state = Inr s'"
    "threads s' = map (\<lambda>t. \<lparr>exec_state = Clear B0 (exec_state t), priority = 1,
                              run_state = DEAD\<rparr>) (threads victim_state)"
    "unused_threads s' = rev [0..<length (threads victim_state)]"
    "active_threads s' = {||}" "pending_threads s' = []" "thread_exec_order s' = []"
    "custom_component s' = custom_component victim_state"
    by blast
  then show ?thesis using h by (simp add: example_defs upt_rec)
qed

subsection \<open>Public operations\<close>

lemma SingleProcess_no_state: "SingleProcess HandleEvent s \<noteq> Some (Inr s')"
  by (auto simp: SingleProcess_def Let_def split: option.splits sum.splits)

lemma SpawnThreadWithID_cases:
  assumes "SpawnThreadWithID B module_id prio s = Inr (r, s')"
  obtains (none) "r = None" "s' = s"
  | (reuse) i us where "unused_threads s = us @ [i]" "i < length (threads s)" "r = Some i"
      "s' = s\<lparr>unused_threads := us,
               threads := (threads s)[i :=
                 SetPending (InitThread B (SetPriority prio (Reset B (threads s ! i))) module_id)],
               pending_threads := pending_threads s @ [i]\<rparr>"
  | (grow) "unused_threads s = []" "length (threads s) < max_thread_space s"
      "r = Some (length (threads s))"
      "s' = s\<lparr>threads := threads s @
                 [SetPending (InitThread B
                    (SetPriority prio (Reset B (Thread_ctor (exec_state_t B) 1))) module_id)],
               pending_threads := pending_threads s @ [length (threads s)]\<rparr>"
proof (cases "unused_threads s = []")
  case False
  then have u: "unused_threads s = butlast (unused_threads s) @ [last (unused_threads s)]" by simp
  from False assms have "last (unused_threads s) < length (threads s)"
    by (auto simp: SpawnThreadWithID_def Let_def split: if_splits)
  with False assms u show ?thesis
    by (intro reuse [of "butlast (unused_threads s)" "last (unused_threads s)"])
       (auto simp: SpawnThreadWithID_def Let_def split: if_splits)
next
  case True
  with assms show ?thesis
    by (cases "length (threads s) < max_thread_space s")
       (auto simp: SpawnThreadWithID_def Let_def intro: none grow)
qed

lemma fresh_state_inv:
  assumes "active_threads s = {||}" "pending_threads s = []"
    and "unused_threads s = rev [0..<length (threads s)]"
    and "\<forall>i < length (threads s). run_state (threads s ! i) = DEAD"
  shows "thread_index_inv s \<and> ids_wf s"
  using assms by (simp add: thread_index_inv_def ids_wf_def fcard_fempty)

lemma BaseSignalGP_ctor_eq:
  "BaseSignalGP_ctor B c =
     \<lparr>event_queue = [], max_active_threads = 64, max_thread_space = 512,
      threads = replicate 128 (Thread_ctor (exec_state_t B) 1),
      thread_exec_order = [], active_threads = {||},
      unused_threads = rev [0..<128], pending_threads = [],
      cur_thread_id = size_t_minus_1, is_executing = False, custom_component = c\<rparr>"
  unfolding BaseSignalGP_ctor_def Let_def reverse_index_list by simp

lemma BaseSignalGP_ctor_inv:
  "thread_index_inv (BaseSignalGP_ctor B c) \<and> ids_wf (BaseSignalGP_ctor B c)"
  unfolding BaseSignalGP_ctor_eq
  by (rule fresh_state_inv) (simp_all add: Thread_ctor_def del: upt_rec_numeral)

lemma BaseResetState_inv:
  assumes "BaseResetState B s = Inr s'"
  shows "thread_index_inv s' \<and> ids_wf s'"
proof (rule fresh_state_inv)
  from assms have s': "s' = s\<lparr>event_queue := [],
                      threads := map (Reset B) (threads s),
                      thread_exec_order := [],
                      active_threads := {||},
                      pending_threads := [],
                      unused_threads := rev [0..<length (threads s)],
                      cur_thread_id := size_t_minus_1,
                      is_executing := False\<rparr>"
    unfolding BaseResetState_def Let_def reverse_index_list by (auto split: if_splits)
  show "active_threads s' = {||}" "pending_threads s' = []"
    "unused_threads s' = rev [0..<length (threads s')]"
    "\<forall>i < length (threads s'). run_state (threads s' ! i) = DEAD"
    by (simp_all add: s' Reset_def)
qed

lemma SpawnThreadWithID_inv:
  assumes run: "SpawnThreadWithID B module_id prio s = Inr (r, s')"
    and inv: "thread_index_inv s" and wf: "ids_wf s"
  shows "thread_index_inv s' \<and> ids_wf s'"
  using run
proof (cases rule: SpawnThreadWithID_cases)
  case none
  with inv wf show ?thesis by simp
next
  case (reuse i us)
  have p: "run_state (SetPending x) = PENDING" for x :: "'a Thread"
    by (simp add: SetPending_def)
  from inv wf reuse(1) have i: "i |\<notin>| active_threads s" "i \<notin> set (pending_threads s)" "i \<notin> set us"
    by (auto simp: thread_index_inv_def ids_wf_def)
  have "ids_wf s'"
    using wf i reuse(1,2) by (auto simp: ids_wf_def reuse(4))
  moreover have "thread_index_inv s'"
    using inv i reuse(1,2) unfolding thread_index_inv_def reuse(4)
    by (auto simp: nth_list_update p)
  ultimately show ?thesis by simp
next
  case grow
  have p: "run_state (SetPending x) = PENDING" for x :: "'a Thread"
    by (simp add: SetPending_def)
  from wf have n: "length (threads s) |\<notin>| active_threads s"
    "length (threads s) \<notin> set (pending_threads s)"
    by (auto simp: ids_wf_def)
  have "ids_wf s'"
    using wf n grow(1) by (auto simp: ids_wf_def grow(4) less_Suc_eq)
  moreover have "thread_index_inv s'"
    using inv n grow(1) unfolding thread_index_inv_def grow(4)
    by (auto simp: nth_append p less_Suc_eq)
  ultimately show ?thesis by simp
qed

lemma public_op_inv:
  assumes "public_op B HandleEvent s s'" "thread_index_inv s" "ids_wf s"
  shows "thread_index_inv s' \<and> ids_wf s'"
  using assms
proof (cases rule: public_op.cases)
  case op_reset
  then show ?thesis by (rule BaseResetState_inv)
next
  case (op_spawn module_id prio r)
  then show ?thesis using assms(2,3) by (rule SpawnThreadWithID_inv)
next
  case (op_queue event)
  with assms(2,3) show ?thesis by (simp add: QueueEvent_def thread_index_inv_def ids_wf_def)
next
  case (op_custom val)
  with assms(2,3) show ?thesis by (simp add: SetCustomComponent_def thread_index_inv_def ids_wf_def)
next
  case op_process
  then show ?thesis by (simp add: SingleProcess_no_state)
qed

subsection \<open>The admission keeps the views consistent\<close>

lemma admitted_inv_activate:
  assumes inv: "admitted_inv t" "ids_wf t" and q: "pending_threads t = p # ps"
    and room: "fcard (active_threads t) < max_active_threads t"
  shows "p < length (threads t) \<and> IsPending (threads t ! p) \<and>
         admitted_inv (t\<lparr>active_threads := finsert p (active_threads t),
                         thread_exec_order := thread_exec_order t @ [p],
                         threads := (threads t)[p := SetRunning (threads t ! p)],
                         pending_threads := ps\<rparr>) \<and>
         ids_wf (t\<lparr>active_threads := finsert p (active_threads t),
                         thread_exec_order := thread_exec_order t @ [p],
                         threads := (threads t)[p := SetRunning (threads t ! p)],
                         pending_threads := ps\<rparr>)"
proof -
  have r: "run_state (SetRunning x) = RUNNING" for x :: "'a Thread"
    by (simp add: SetRunning_def)
  from inv q have p: "p < length (threads t)" "p \<notin> set ps" "p |\<notin>| active_threads t"
    "p \<notin> set (unused_threads t)"
    by (auto simp: admitted_inv_def ids_wf_def)
  moreover from inv q p have "IsPending (threads t ! p)"
    by (simp add: admitted_inv_def IsPending_def)
  moreover have "ids_wf (t\<lparr>active_threads := finsert p (active_threads t),
                         thread_exec_order := thread_exec_order t @ [p],
                         threads := (threads t)[p := SetRunning (threads t ! p)],
                         pending_threads := ps\<rparr>)"
    using inv(2) q p by (auto simp: ids_wf_def)
  moreover have "admitted_inv (t\<lparr>active_threads := finsert p (active_threads t),
                         thread_exec_order := thread_exec_order t @ [p],
                         threads := (threads t)[p := SetRunning (threads t ! p)],
                         pending_threads := ps\<rparr>)"
    using inv(1) q p room unfolding admitted_inv_def
    by (auto simp: nth_list_update r fcard_finsert_if)
  ultimately show ?thesis by simp
qed

lemma admitted_inv_reject:
  assumes inv: "admitted_inv t" "ids_wf t" and q: "pending_threads t = p # ps"
  shows "p < length (threads t) \<and>
         admitted_inv (t\<lparr>pending_threads := ps,
                         threads := (threads t)[p := SetDead (threads t ! p)]\<rparr>) \<and>
         ids_wf (t\<lparr>pending_threads := ps,
                         threads := (threads t)[p := SetDead (threads t ! p)]\<rparr>)"
proof -
  have r: "run_state (SetDead x) = DEAD" for x :: "'a Thread"
    by (simp add: SetDead_def)
  from inv q have p: "p < length (threads t)" "p \<notin> set ps" "p |\<notin>| active_threads t"
    by (auto simp: admitted_inv_def ids_wf_def)
  moreover have "ids_wf (t\<lparr>pending_threads := ps,
                         threads := (threads t)[p := SetDead (threads t ! p)]\<rparr>)"
    using inv(2) q p by (auto simp: ids_wf_def)
  moreover have "admitted_inv (t\<lparr>pending_threads := ps,
                         threads := (threads t)[p := SetDead (threads t ! p)]\<rparr>)"
    using inv(1) q p unfolding admitted_inv_def
    by (auto simp: nth_list_update r)
  ultimately show ?thesis by simp
qed

lemma admitted_inv_evict:
  assumes inv: "admitted_inv t" "ids_wf t" and q: "pending_threads t = p # ps"
    and a: "a |\<in>| active_threads t"
  shows "admitted_inv (t\<lparr>active_threads := finsert p (active_threads t |-| {|a|}),
                         thread_exec_order := thread_exec_order t @ [p],
                         threads := (threads t)[a := SetDead (threads t ! a),
                                      p := SetRunning ((threads t)[a := SetDead (threads t ! a)] ! p)],
                         pending_threads := ps\<rparr>) \<and>
         ids_wf (t\<lparr>active_threads := finsert p (active_threads t |-| {|a|}),
                         thread_exec_order := thread_exec_order t @ [p],
                         threads := (threads t)[a := SetDead (threads t ! a),
                                      p := SetRunning ((threads t)[a := SetDead (threads t ! a)] ! p)],
                         pending_threads := ps\<rparr>)"
proof -
  have r: "run_state (SetDead x) = DEAD" "run_state (SetRunning x) = RUNNING" for x :: "'a Thread"
    by (simp_all add: SetDead_def SetRunning_def)
  from inv q a have p: "p < length (threads t)" "p \<notin> set ps" "p |\<notin>| active_threads t"
    "p \<notin> set (unused_threads t)" "a < length (threads t)" "a \<noteq> p" "a \<notin> set ps"
    by (auto simp: admitted_inv_def ids_wf_def)
  have "fcard (finsert p (active_threads t |-| {|a|})) = Suc (fcard (active_threads t |-| {|a|}))"
    by (rule fcard_finsert_disjoint) (use p(3) in simp)
  also have "\<dots> = fcard (active_threads t)" by (rule fcard_Suc_fminus1 [OF a])
  finally have c: "fcard (finsert p (active_threads t |-| {|a|})) = fcard (active_threads t)" .
  have "ids_wf (t\<lparr>active_threads := finsert p (active_threads t |-| {|a|}),
                         thread_exec_order := thread_exec_order t @ [p],
                         threads := (threads t)[a := SetDead (threads t ! a),
                                      p := SetRunning ((threads t)[a := SetDead (threads t ! a)] ! p)],
                         pending_threads := ps\<rparr>)"
    using inv(2) q p by (auto simp: ids_wf_def)
  moreover have "admitted_inv (t\<lparr>active_threads := finsert p (active_threads t |-| {|a|}),
                         thread_exec_order := thread_exec_order t @ [p],
                         threads := (threads t)[a := SetDead (threads t ! a),
                                      p := SetRunning ((threads t)[a := SetDead (threads t ! a)] ! p)],
                         pending_threads := ps\<rparr>)"
    using inv(1) q p a unfolding admitted_inv_def
    by (auto simp: nth_list_update r c simp del: fcard_fminus_finsert)
  ultimately show ?thesis by simp
qed

lemma fill_spare_capacity_inv:
  assumes "admitted_inv s" "ids_wf s"
  shows "\<exists>s1. fill_spare_capacity s = Inr s1 \<and> admitted_inv s1 \<and> ids_wf s1"
proof -
  let ?P = "\<lambda>t :: ('a, 'b) BaseSignalGP. admitted_inv t \<and> ids_wf t"
  have "\<exists>s1. fill_spare_capacity s = Inr s1"
  proof (rule fill_spare_capacity_total [where P = ?P], goal_cases)
    case 1
    show ?case using assms by simp
  next
    case (2 t p ps)
    then show ?case using admitted_inv_activate [of t p ps] by simp
  qed
  then obtain s1 where run: "fill_spare_capacity s = Inr s1" ..
  have "?P s1 \<and> (pending_threads s1 = [] \<or> \<not> fcard (active_threads s1) < max_active_threads s1)"
  proof (rule fill_spare_capacity_rule [OF run, where P = ?P], goal_cases)
    case 1
    show ?case using assms by simp
  next
    case (2 t p ps)
    then show ?case using admitted_inv_activate [of t p ps] by simp
  qed
  with run show ?thesis by simp
qed

lemma evict_lower_priority_inv:
  assumes "admitted_inv s" "ids_wf s"
    and "\<forall>e. e |\<in>| heap \<longrightarrow> snd e |\<in>| active_threads s" "inj_on snd (fset heap)"
  shows "\<exists>s2. evict_lower_priority heap s = Inr s2 \<and> admitted_inv s2 \<and> ids_wf s2"
proof -
  let ?P = "\<lambda>(h :: (real \<times> nat) fset) (t :: ('a, 'b) BaseSignalGP).
              admitted_inv t \<and> ids_wf t \<and>
              (\<forall>e. e |\<in>| h \<longrightarrow> snd e |\<in>| active_threads t) \<and> inj_on snd (fset h)"
  have top: "snd (fMin h) |\<in>| active_threads t" if "?P h t" "h \<noteq> {||}" for h t
    using that fMin_in [of h] by blast
  have evict: "?P (h |-| {|fMin h|})
                 (t\<lparr>active_threads := finsert p (active_threads t |-| {|a|}),
                    thread_exec_order := thread_exec_order t @ [p],
                    threads := (threads t)[a := SetDead (threads t ! a),
                                 p := SetRunning ((threads t)[a := SetDead (threads t ! a)] ! p)],
                    pending_threads := ps\<rparr>)"
    if P: "?P h t" and ne: "h \<noteq> {||}" and q: "pending_threads t = p # ps"
      and a: "snd (fMin h) = a" for h t p ps a
  proof -
    have act: "a |\<in>| active_threads t" using top [OF P ne] a by simp
    have rest: "snd e |\<in>| finsert p (active_threads t |-| {|a|})"
      if e: "e |\<in>| h |-| {|fMin h|}" for e
    proof -
      from e have "e |\<in>| h" "e \<noteq> fMin h" by auto
      moreover have "fMin h |\<in>| h" using ne by simp
      ultimately have "snd e \<noteq> snd (fMin h)" using P by (auto dest: inj_onD)
      moreover have "snd e |\<in>| active_threads t" using \<open>e |\<in>| h\<close> P by blast
      ultimately show ?thesis using a by simp
    qed
    have "inj_on snd (fset (h |-| {|fMin h|}))"
      using P by (auto intro: inj_on_subset)
    moreover from P have i: "admitted_inv t" "ids_wf t" by simp_all
    moreover note admitted_inv_evict [OF i q act]
    moreover have "\<forall>e. e |\<in>| h |-| {|fMin h|} \<longrightarrow>
                     snd e |\<in>| finsert p (active_threads t |-| {|a|})"
      using rest by blast
    ultimately show ?thesis by simp
  qed
  have reject: "?P h (t\<lparr>pending_threads := ps,
                        threads := (threads t)[p := SetDead (threads t ! p)]\<rparr>)"
    if P: "?P h t" and q: "pending_threads t = p # ps" for h t p ps
    using admitted_inv_reject [OF _ _ q] P by simp
  have range: "p < length (threads t) \<and> snd (fMin h) < length (threads t)"
    if P: "?P h t" and ne: "h \<noteq> {||}" and q: "pending_threads t = p # ps" for h t p ps
  proof -
    have "snd (fMin h) < length (threads t)"
      using top [OF P ne] P by (auto simp: ids_wf_def)
    with admitted_inv_reject [OF _ _ q] P show ?thesis by simp
  qed
  have init: "?P heap s" using assms by simp
  have "\<exists>s2. evict_lower_priority heap s = Inr s2"
  proof (rule evict_lower_priority_total [where P = ?P, OF init], goal_cases)
    case (1 h t p ps a)
    show ?case by (rule evict [OF 1(1,2,3,4)])
  next
    case (2 h t p ps a)
    show ?case by (rule reject [OF 2(1,3)])
  next
    case (3 h t p ps)
    show ?case by (rule range [OF 3(1,2,3)])
  qed
  then obtain s2 where run: "evict_lower_priority heap s = Inr s2" ..
  have "\<exists>heap'. ?P heap' s2 \<and> (heap' = {||} \<or> pending_threads s2 = [])"
  proof (rule evict_lower_priority_rule [where P = ?P, OF run init], goal_cases)
    case (1 h t p ps a)
    show ?case by (rule evict [OF 1(1,2,3,4)])
  next
    case (2 h t p ps a)
    show ?case by (rule reject [OF 2(1,3)])
  qed
  then obtain heap' where "admitted_inv s2 \<and> ids_wf s2" by auto
  with run show ?thesis by simp
qed

lemma reject_leftovers_inv:
  assumes "admitted_inv s" "ids_wf s"
  shows "\<exists>s'. reject_leftovers s = Inr s' \<and> admitted_inv s' \<and> ids_wf s' \<and> pending_threads s' = []"
proof -
  let ?P = "\<lambda>t :: ('a, 'b) BaseSignalGP. admitted_inv t \<and> ids_wf t"
  have "\<exists>s'. reject_leftovers s = Inr s'"
    by (rule reject_leftovers_total) (use assms(2) in \<open>simp add: ids_wf_def\<close>)
  then obtain s' where run: "reject_leftovers s = Inr s'" ..
  have "?P s' \<and> pending_threads s' = []"
  proof (rule reject_leftovers_rule [OF run, where P = ?P], goal_cases)
    case 1
    show ?case using assms by simp
  next
    case (2 t p ps)
    have eq: "t\<lparr>threads := (threads t)[p := SetDead (threads t ! p)], pending_threads := ps\<rparr> =
          t\<lparr>pending_threads := ps, threads := (threads t)[p := SetDead (threads t ! p)]\<rparr>"
      by simp
    show ?case unfolding eq using 2 admitted_inv_reject [of t p ps] by simp
  qed
  with run show ?thesis by simp
qed

lemma max_pending_loop_returns:
  "\<forall>i \<in> set ids. i < length ths \<and> IsPending (ths ! i) \<Longrightarrow> \<exists>P. max_pending_loop ths ids m = Inr P"
  by (induction ids arbitrary: m) (auto simp: Let_def)

lemma max_pending_priority_returns:
  assumes "admitted_inv s" "ids_wf s" "pending_threads s \<noteq> []"
  shows "\<exists>P. max_pending_priority s = Inr P"
proof -
  from assms(1,2) have a: "\<forall>i \<in> set (pending_threads s). i < length (threads s) \<and> IsPending (threads s ! i)"
    by (auto simp: admitted_inv_def ids_wf_def IsPending_def)
  moreover have "hd (pending_threads s) < length (threads s)"
    using a assms(3) by (cases "pending_threads s") auto
  ultimately show ?thesis
    using max_pending_loop_returns [of "pending_threads s" "threads s"]
    by (simp add: max_pending_priority_def)
qed

text \<open>Under the two invariants the admission returns, with an empty pending queue, and
  keeps them: in particular the active set stays within \<^verbatim>\<open>max_active_threads\<close>.\<close>

lemma ActivatePendingThreads_inv:
  assumes inv: "admitted_inv s" "ids_wf s"
  shows "\<exists>s'. ActivatePendingThreads s = Inr s' \<and> admitted_inv s' \<and> ids_wf s' \<and>
           pending_threads s' = []"
proof (cases "pending_threads s = []")
  case True
  with inv show ?thesis by (simp add: ActivatePendingThreads_def)
next
  case False
  from fill_spare_capacity_inv [OF inv] obtain s1 where
    1: "fill_spare_capacity s = Inr s1" "admitted_inv s1" "ids_wf s1" by blast
  show ?thesis
  proof (cases "pending_threads s1 = []")
    case True
    with False 1 show ?thesis by (simp add: ActivatePendingThreads_def)
  next
    case ne: False
    from max_pending_priority_returns [OF 1(2,3) ne] obtain P where
      P: "max_pending_priority s1 = Inr P" ..
    have r: "\<not> fBex (active_threads s1) (\<lambda>active_id. \<not> active_id < length (threads s1))"
      using 1(3) by (auto simp: ids_wf_def)
    define heap where "heap = (\<lambda>active_id. (GetPriority (threads s1 ! active_id), active_id)) |`|
                 ffilter (\<lambda>active_id. GetPriority (threads s1 ! active_id) < P) (active_threads s1)"
    have h: "active_priorities s1 P = Inr heap"
      using r by (simp add: active_priorities_def heap_def)
    have "\<forall>e. e |\<in>| heap \<longrightarrow> snd e |\<in>| active_threads s1" "inj_on snd (fset heap)"
      by (auto simp: heap_def inj_on_def)
    from evict_lower_priority_inv [OF 1(2,3) this] obtain s2 where
      2: "evict_lower_priority heap s1 = Inr s2" "admitted_inv s2" "ids_wf s2" by blast
    from reject_leftovers_inv [OF 2(2,3)] obtain s' where
      3: "reject_leftovers s2 = Inr s'" "admitted_inv s'" "ids_wf s'" "pending_threads s' = []"
      by blast
    have "ActivatePendingThreads s = Inr s'"
      using False 1(1) ne P h 2(1) 3(1) by (simp add: ActivatePendingThreads_def)
    with 3 show ?thesis by blast
  qed
qed

lemma thread_index_inv_admitted: "thread_index_inv s \<Longrightarrow> admitted_inv s"
  by (simp add: thread_index_inv_def admitted_inv_def)

text \<open>A pending thread that the admission rejects is dead and in none of the views, the
  execution order included: the clause of \<open>thread_index_inv\<close> on dead ids holds after the
  public operations, not between the admission and the end of a step.\<close>

lemma rejected_thread_in_no_view:
  "thread_index_inv tie_state \<and> ids_wf tie_state \<and>
   ActivatePendingThreads tie_state =
     Inr (tie_state\<lparr>threads := [thr 2 RUNNING, thr 2 DEAD], pending_threads := []\<rparr>) \<and>
   \<not> thread_index_inv (tie_state\<lparr>threads := [thr 2 RUNNING, thr 2 DEAD], pending_threads := []\<rparr>) \<and>
   admitted_inv (tie_state\<lparr>threads := [thr 2 RUNNING, thr 2 DEAD], pending_threads := []\<rparr>)"
  by (simp add: admit_tie_state)
     (simp add: example_defs thread_index_inv_def admitted_inv_def ids_wf_def fcard_finsert_if
        fcard_fempty less_Suc_eq numeral_2_eq_2)

subsection \<open>Reachable states\<close>

lemma SpawnThreadWithID_admitted_inv:
  assumes run: "SpawnThreadWithID B module_id prio s = Inr (r, s')"
    and inv: "admitted_inv s" and wf: "ids_wf s"
  shows "admitted_inv s'"
  using run
proof (cases rule: SpawnThreadWithID_cases)
  case none
  with inv show ?thesis by simp
next
  case (reuse i us)
  have p: "run_state (SetPending x) = PENDING" for x :: "'a Thread"
    by (simp add: SetPending_def)
  from inv wf reuse(1) have i: "i |\<notin>| active_threads s" "i \<notin> set (pending_threads s)" "i \<notin> set us"
    by (auto simp: admitted_inv_def ids_wf_def)
  show ?thesis
    using inv i reuse(1,2) unfolding admitted_inv_def reuse(4)
    by (auto simp: nth_list_update p)
next
  case grow
  have p: "run_state (SetPending x) = PENDING" for x :: "'a Thread"
    by (simp add: SetPending_def)
  from wf have n: "length (threads s) |\<notin>| active_threads s"
    "length (threads s) \<notin> set (pending_threads s)"
    by (auto simp: ids_wf_def)
  show ?thesis
    using inv n grow(1) unfolding admitted_inv_def grow(4)
    by (auto simp: nth_append p less_Suc_eq)
qed

lemma SpawnThreadWithID_ids_wf:
  assumes run: "SpawnThreadWithID B module_id prio s = Inr (r, s')"
    and inv: "admitted_inv s" and wf: "ids_wf s"
  shows "ids_wf s'"
  using run
proof (cases rule: SpawnThreadWithID_cases)
  case none
  with wf show ?thesis by simp
next
  case (reuse i us)
  from inv wf reuse(1) have i: "i |\<notin>| active_threads s" "i \<notin> set (pending_threads s)" "i \<notin> set us"
    by (auto simp: admitted_inv_def ids_wf_def)
  show ?thesis using wf i reuse(1,2) by (auto simp: ids_wf_def reuse(4))
next
  case grow
  from wf have n: "length (threads s) |\<notin>| active_threads s"
    "length (threads s) \<notin> set (pending_threads s)"
    by (auto simp: ids_wf_def)
  show ?thesis using wf n grow(1) by (auto simp: ids_wf_def grow(4) less_Suc_eq)
qed

lemma same_payload_length:
  assumes "same_payload s s'"
  shows "length (threads s') = length (threads s)"
proof -
  from assms have "map priority (threads s') = map priority (threads s)"
    by (simp add: same_payload_def)
  then show ?thesis by (metis length_map)
qed

text \<open>In every reachable state the views are consistent, the ids they hold are indices of
  the pool, the pool is within \<^verbatim>\<open>max_thread_space\<close>, and the current thread id is
  \<^verbatim>\<open>(size_t)-1\<close>: nothing in the source assigns it but the constructor and the reset.\<close>

lemma reachable_inv:
  assumes "reachable B HandleEvent s"
  shows "admitted_inv s \<and> ids_wf s \<and> length (threads s) \<le> max_thread_space s \<and>
         cur_thread_id s = size_t_minus_1"
  using assms
proof (induction rule: reachable.induct)
  case (r_ctor c)
  have "thread_index_inv (BaseSignalGP_ctor B c) \<and> ids_wf (BaseSignalGP_ctor B c)"
    by (rule BaseSignalGP_ctor_inv)
  then show ?case
    by (simp add: thread_index_inv_admitted) (simp add: BaseSignalGP_ctor_eq)
next
  case (r_op s s')
  from r_op.hyps(2) show ?case
  proof (cases rule: public_op.cases)
    case op_reset
    from BaseResetState_inv [OF op_reset] have "admitted_inv s'" "ids_wf s'"
      by (simp_all add: thread_index_inv_admitted)
    moreover from op_reset r_op.IH
    have "length (threads s') \<le> max_thread_space s' \<and> cur_thread_id s' = size_t_minus_1"
      by (auto simp: BaseResetState_def Let_def split: if_splits)
    ultimately show ?thesis by simp
  next
    case (op_spawn module_id prio r)
    have "admitted_inv s'" "ids_wf s'"
      using SpawnThreadWithID_admitted_inv [OF op_spawn] SpawnThreadWithID_ids_wf [OF op_spawn]
        r_op.IH by simp_all
    moreover from op_spawn
    have "length (threads s') \<le> max_thread_space s' \<and> cur_thread_id s' = size_t_minus_1"
      by (cases rule: SpawnThreadWithID_cases) (use r_op.IH in auto)
    ultimately show ?thesis by simp
  next
    case (op_queue event)
    with r_op.IH show ?thesis by (simp add: QueueEvent_def admitted_inv_def ids_wf_def)
  next
    case (op_custom val)
    with r_op.IH show ?thesis by (simp add: SetCustomComponent_def admitted_inv_def ids_wf_def)
  next
    case op_process
    then show ?thesis by (simp add: SingleProcess_no_state)
  qed
next
  case (r_admit s s')
  from ActivatePendingThreads_inv [of s] r_admit
  have "admitted_inv s'" "ids_wf s'" by auto
  moreover from ActivatePendingThreads_payload [OF r_admit.hyps(2)] r_admit.IH
  have "length (threads s') \<le> max_thread_space s' \<and> cur_thread_id s' = size_t_minus_1"
    using same_payload_length [of s s'] by (simp add: same_payload_def)
  ultimately show ?case by simp
next
  case (r_execute s)
  then show ?case by (simp add: admitted_inv_def ids_wf_def)
qed

subsection \<open>The current thread id\<close>

lemma size_t_minus_1_value: "size_t_minus_1 = 18446744073709551615"
  by (simp add: size_t_minus_1_def unsigned_minus_1_eq_mask mask_eq_exp_minus_1)

text \<open>
  C10. In every state the written code can reach, executing or not, the current thread id
  is \<^verbatim>\<open>(size_t)-1\<close>, that is \<open>2\<^sup>6\<^sup>4 - 1\<close>, and \<^verbatim>\<open>GetCurThreadID\<close> returns it; so it is in the
  state the constructor builds and in any state \<^verbatim>\<open>BaseResetState\<close> returns.
\<close>

theorem cur_thread_id_is_sentinel:
  "(reachable B HandleEvent s \<longrightarrow>
      cur_thread_id s = size_t_minus_1 \<and> GetCurThreadID s = size_t_minus_1) \<and>
   GetCurThreadID (BaseSignalGP_ctor B c) = size_t_minus_1 \<and>
   (BaseResetState B t = Inr t' \<longrightarrow> GetCurThreadID t' = size_t_minus_1) \<and>
   size_t_minus_1 = 2 ^ 64 - 1"
proof -
  have "BaseResetState B t = Inr t' \<longrightarrow> GetCurThreadID t' = size_t_minus_1"
    by (auto simp: BaseResetState_def Let_def GetCurThreadID_def split: if_splits)
  moreover have "GetCurThreadID (BaseSignalGP_ctor B c) = size_t_minus_1"
    by (simp add: BaseSignalGP_ctor_eq GetCurThreadID_def)
  moreover have "size_t_minus_1 = 2 ^ 64 - 1"
    by (simp add: size_t_minus_1_value)
  ultimately show ?thesis
    using reachable_inv [of B HandleEvent s] by (simp add: GetCurThreadID_def)
qed

lemma reset_spare_state:
  "BaseResetState B0 spare_state =
     Inr (spare_state\<lparr>threads := [\<lparr>exec_state = 0, priority = 1, run_state = DEAD\<rparr>,
                                     \<lparr>exec_state = 0, priority = 1, run_state = DEAD\<rparr>,
                                     \<lparr>exec_state = 0, priority = 1, run_state = DEAD\<rparr>,
                                     \<lparr>exec_state = 0, priority = 1, run_state = DEAD\<rparr>],
            thread_exec_order := [], active_threads := {||}, pending_threads := [],
            unused_threads := [3, 2, 1, 0]\<rparr>)"
  unfolding BaseResetState_def Let_def reverse_index_list
  by (simp add: example_defs Reset_def upt_rec)

theorem cur_thread_id_is_sentinel_witness:
  "reachable B0 ignore_events (BaseSignalGP_ctor B0 ()) \<and>
   reachable B0 ignore_events ((BaseSignalGP_ctor B0 ())\<lparr>is_executing := True\<rparr>) \<and>
   GetCurThreadID (BaseSignalGP_ctor B0 ()) = 18446744073709551615 \<and>
   GetCurThreadID ((BaseSignalGP_ctor B0 ())\<lparr>is_executing := True\<rparr>) = 18446744073709551615 \<and>
   BaseResetState B0 spare_state =
     Inr (spare_state\<lparr>threads := [\<lparr>exec_state = 0, priority = 1, run_state = DEAD\<rparr>,
                                     \<lparr>exec_state = 0, priority = 1, run_state = DEAD\<rparr>,
                                     \<lparr>exec_state = 0, priority = 1, run_state = DEAD\<rparr>,
                                     \<lparr>exec_state = 0, priority = 1, run_state = DEAD\<rparr>],
            thread_exec_order := [], active_threads := {||}, pending_threads := [],
            unused_threads := [3, 2, 1, 0]\<rparr>) \<and>
   GetCurThreadID
     (spare_state\<lparr>threads := [\<lparr>exec_state = 0, priority = 1, run_state = DEAD\<rparr>,
                                     \<lparr>exec_state = 0, priority = 1, run_state = DEAD\<rparr>,
                                     \<lparr>exec_state = 0, priority = 1, run_state = DEAD\<rparr>,
                                     \<lparr>exec_state = 0, priority = 1, run_state = DEAD\<rparr>],
            thread_exec_order := [], active_threads := {||}, pending_threads := [],
            unused_threads := [3, 2, 1, 0]\<rparr>) = 18446744073709551615"
proof -
  let ?c = "BaseSignalGP_ctor B0 ()"
  let ?r = "spare_state\<lparr>threads := [\<lparr>exec_state = 0, priority = 1, run_state = DEAD\<rparr>,
                                     \<lparr>exec_state = 0, priority = 1, run_state = DEAD\<rparr>,
                                     \<lparr>exec_state = 0, priority = 1, run_state = DEAD\<rparr>,
                                     \<lparr>exec_state = 0, priority = 1, run_state = DEAD\<rparr>],
            thread_exec_order := [], active_threads := {||}, pending_threads := [],
            unused_threads := [3, 2, 1, 0]\<rparr>"
  have r: "reachable B0 ignore_events ?c" by (rule r_ctor)
  then have e: "reachable B0 ignore_events (?c\<lparr>is_executing := True\<rparr>)"
    by (rule r_execute)
  note T1 = cur_thread_id_is_sentinel [of B0 ignore_events ?c "()" spare_state ?r]
  note T2 = cur_thread_id_is_sentinel
              [of B0 ignore_events "?c\<lparr>is_executing := True\<rparr>" "()" spare_state ?r]
  from T1 r have 1: "GetCurThreadID ?c = size_t_minus_1" by simp
  from T2 e have 2: "GetCurThreadID (?c\<lparr>is_executing := True\<rparr>) = size_t_minus_1" by simp
  from T1 reset_spare_state have 3: "GetCurThreadID ?r = size_t_minus_1" by simp
  from r e 1 2 3 reset_spare_state show ?thesis by (simp only: size_t_minus_1_value)
qed

subsection \<open>The invariant of the thread views\<close>

lemma spawn_spare_state:
  "SpawnThreadWithID B0 5 3 spare_state =
     Inr (Some 3, spare_state\<lparr>unused_threads := [],
            threads := [thr 1 RUNNING, thr 1 PENDING, thr 6 PENDING,
                        \<lparr>exec_state = 6, priority = 3, run_state = PENDING\<rparr>],
            pending_threads := [1, 2, 3]\<rparr>)"
  by (simp add: SpawnThreadWithID_def example_defs Reset_def SetPriority_def SetPending_def)

text \<open>The state the constructor builds satisfies \<open>thread_index_inv\<close> together with
  \<open>ids_wf\<close>, and every public operation that returns (\<^verbatim>\<open>BaseResetState\<close>,
  \<^verbatim>\<open>SpawnThreadWithID\<close>, \<^verbatim>\<open>QueueEvent\<close>, \<^verbatim>\<open>SetCustomComponent\<close>) takes a state that
  satisfies both to a state that satisfies both. \<^verbatim>\<open>SingleProcess\<close> is not among them: it
  returns no state.\<close>

lemma thread_index_inv_public_op:
  "thread_index_inv (BaseSignalGP_ctor B c) \<and> ids_wf (BaseSignalGP_ctor B c) \<and>
   (thread_index_inv s \<and> ids_wf s \<and> public_op B HandleEvent s s' \<longrightarrow>
      thread_index_inv s' \<and> ids_wf s')"
  using BaseSignalGP_ctor_inv [of B c] public_op_inv [of B HandleEvent s s'] by blast

lemma thread_index_inv_spawn_spare_state:
  "thread_index_inv spare_state \<and> ids_wf spare_state \<and>
   thread_index_inv
     (spare_state\<lparr>unused_threads := [],
            threads := [thr 1 RUNNING, thr 1 PENDING, thr 6 PENDING,
                        \<lparr>exec_state = 6, priority = 3, run_state = PENDING\<rparr>],
            pending_threads := [1, 2, 3]\<rparr>)"
proof -
  have i: "thread_index_inv spare_state \<and> ids_wf spare_state"
    by (simp add: example_defs thread_index_inv_def ids_wf_def fcard_finsert_if fcard_fempty
          less_Suc_eq numeral_2_eq_2 numeral_3_eq_3 eval_nat_numeral)
  have "public_op B0 ignore_events spare_state
     (spare_state\<lparr>unused_threads := [],
            threads := [thr 1 RUNNING, thr 1 PENDING, thr 6 PENDING,
                        \<lparr>exec_state = 6, priority = 3, run_state = PENDING\<rparr>],
            pending_threads := [1, 2, 3]\<rparr>)"
    by (rule op_spawn [OF spawn_spare_state])
  with i public_op_inv show ?thesis by blast
qed



end
